theory Spec2Isabelle
  imports Main "HOL-Library.Char_ord" "HOL-Library.List_Lexorder"
begin

section \<open>find-uos-codes.js: strings and the two regular expressions\<close>

text \<open>
  A JavaScript string is modelled as a \<^typ>\<open>string\<close>: one \<^typ>\<open>char\<close> per code unit, for the
  code units below 256. Strings are compared as JavaScript compares them, code unit by code
  unit, a proper prefix being smaller (the lexicographic order on \<^typ>\<open>char list\<close>).
  The three character classes of the two regular expressions are \<open>\d\<close> and \<open>[0-9]\<close>,
  \<open>[A-Z]\<close>, and \<open>\s\<close>, which in this range is tab, line feed, vertical tab, form feed,
  carriage return, space and the no-break space 0xA0.
\<close>

definition is_digit :: "char \<Rightarrow> bool" where
  "is_digit c \<longleftrightarrow> CHR ''0'' \<le> c \<and> c \<le> CHR ''9''"

definition is_upper :: "char \<Rightarrow> bool" where
  "is_upper c \<longleftrightarrow> CHR ''A'' \<le> c \<and> c \<le> CHR ''Z''"

definition is_space :: "char \<Rightarrow> bool" where
  "is_space c \<longleftrightarrow>
     c \<in> set [CHR 0x09, CHR 0x0A, CHR 0x0B, CHR 0x0C, CHR 0x0D, CHR 0x20, CHR 0xA0]"

text \<open>
  \<open>/r(\d{7})/\<close> anchored at the head of a string: the letter r and seven digits.
\<close>

definition rn_at :: "string \<Rightarrow> bool" where
  "rn_at s \<longleftrightarrow>
     (case s of [] \<Rightarrow> False
      | c # cs \<Rightarrow> c = CHR ''r'' \<and> 7 \<le> length cs \<and> list_all is_digit (take 7 cs))"

text \<open>
  \<open>text.match(/r(\d{7})/g)\<close>: the scan tries the pattern at the current position; a match is
  collected and the scan resumes behind it, a failure moves the position one code unit on.
  \<open>match_rn\<close> is the list of matches; \<open>js_match\<close> turns the empty list into \<open>null\<close>,
  as \<open>String.prototype.match\<close> does for a global pattern.
\<close>

fun match_rn :: "string \<Rightarrow> string list" where
  "match_rn [] = []"
| "match_rn (c # cs) =
     (if rn_at (c # cs) then take 8 (c # cs) # match_rn (drop 7 cs) else match_rn cs)"

definition js_match :: "string list \<Rightarrow> string list option" where
  "js_match ms = (if ms = [] then None else Some ms)"

text \<open>
  \<open>/([A-Z]{4}\s*[0-9]{4})/\<close> anchored at the head of a string. \<open>\s*\<close> is greedy and takes the
  whole run of white space; giving some of it back cannot help, since the next code unit
  would then be white space where a digit is required.
\<close>

definition uos_at :: "string \<Rightarrow> string option" where
  "uos_at s =
     (let letters = take 4 s;
          ws = takeWhile is_space (drop 4 s);
          digits = take 4 (dropWhile is_space (drop 4 s))
      in if length letters = 4 \<and> list_all is_upper letters
            \<and> length digits = 4 \<and> list_all is_digit digits
         then Some (letters @ ws @ digits) else None)"

fun match_uos :: "string \<Rightarrow> string list" where
  "match_uos [] = []"
| "match_uos (c # cs) =
     (case uos_at (c # cs) of
        None \<Rightarrow> match_uos cs
      | Some m \<Rightarrow> m # match_uos (drop (length m - 1) cs))"

text \<open>
  \<open>x.replace(' ', '')\<close>: with a string as the pattern, \<open>replace\<close> removes the first
  occurrence of the space character and nothing else.
\<close>

fun replace_space :: "string \<Rightarrow> string" where
  "replace_space [] = []"
| "replace_space (c # cs) = (if c = CHR '' '' then cs else c # replace_space cs)"

section \<open>The lodash functions the program uses\<close>

text \<open>
  \<open>_fp.filter(_fp.identity)\<close> on a list whose elements are arrays or \<open>null\<close>/\<open>undefined\<close>
  (\<open>None\<close>) keeps the arrays. \<open>_fp.flattenDeep\<close> on a list of arrays of strings is
  \<^const>\<open>concat\<close>, and \<open>_fp.sortBy(_fp.identity)\<close> on strings is the stable ascending
  \<^const>\<open>sort\<close>.
\<close>

fun filter_identity :: "'a option list \<Rightarrow> 'a list" where
  "filter_identity [] = []"
| "filter_identity (None # xs) = filter_identity xs"
| "filter_identity (Some x # xs) = x # filter_identity xs"

text \<open>
  \<open>_fp.sortedUniq\<close> (\<open>baseSortedUniq\<close>): the first element is kept, and every later one that
  differs from the last element kept (\<open>seen\<close>).
\<close>

fun sortedUniq_from :: "'a \<Rightarrow> 'a list \<Rightarrow> 'a list" where
  "sortedUniq_from seen [] = []"
| "sortedUniq_from seen (x # xs) =
     (if x = seen then sortedUniq_from seen xs else x # sortedUniq_from x xs)"

fun sortedUniq :: "'a list \<Rightarrow> 'a list" where
  "sortedUniq [] = []"
| "sortedUniq (x # xs) = x # sortedUniq_from x xs"

text \<open>
  \<open>_fp.uniq\<close> (\<open>baseUniq\<close>): an element is appended to the result unless the result holds it
  already, so the first occurrence of every value stays, in the original order.
\<close>

fun uniq_into :: "'a list \<Rightarrow> 'a list \<Rightarrow> 'a list" where
  "uniq_into result [] = result"
| "uniq_into result (x # xs) =
     (if x \<in> set result then uniq_into result xs else uniq_into (result @ [x]) xs)"

definition uniq :: "'a list \<Rightarrow> 'a list" where
  "uniq xs = uniq_into [] xs"

text \<open>
  \<open>array.join(sep)\<close>; an element that is \<open>undefined\<close> (\<open>None\<close>) is written as the empty
  string.
\<close>

definition js_string :: "string option \<Rightarrow> string" where
  "js_string v = (case v of None \<Rightarrow> [] | Some s \<Rightarrow> s)"

fun join :: "string \<Rightarrow> string option list \<Rightarrow> string" where
  "join sep [] = []"
| "join sep [x] = js_string x"
| "join sep (x # y # ys) = js_string x @ sep @ join sep (y # ys)"

text \<open>
  \<open>xs[i]\<close> reads \<open>undefined\<close> outside the array. \<open>ys[i] = v\<close> overwrites an element of the
  array; behind its end it extends the array, the elements in between being holes (\<open>None\<close>).
  The array indices are the integers from 0 to \<open>2^32 - 2\<close>: for a negative \<open>i\<close>, and for
  \<open>i\<close> from \<open>2^32 - 1 = 4294967295\<close> on, the assignment sets a property that is no element
  of the array, and the array stays as it is.
\<close>

definition js_index :: "'a list \<Rightarrow> int \<Rightarrow> 'a option" where
  "js_index xs i = (if 0 \<le> i \<and> nat i < length xs then Some (xs ! nat i) else None)"

definition js_assign :: "'a option list \<Rightarrow> int \<Rightarrow> 'a \<Rightarrow> 'a option list" where
  "js_assign ys i v =
     (if i < 0 \<or> 4294967295 \<le> i then ys
      else if nat i < length ys then ys[nat i := Some v]
      else ys @ replicate (nat i - length ys) None @ [Some v])"

definition truthy :: "string option \<Rightarrow> bool" where
  "truthy v \<longleftrightarrow> (case v of None \<Rightarrow> False | Some s \<Rightarrow> s \<noteq> [])"

section \<open>Options, rows and the state\<close>

record options =
  skip :: int
  column :: int
  result_column :: int

definition recordNumberColumn :: "options \<Rightarrow> int" where
  "recordNumberColumn opts = max (column opts - 1) 0"

definition resultColumn :: "options \<Rightarrow> int" where
  "resultColumn opts = max (result_column opts - 1) (- 1)"

definition wantsPrependedResults :: "options \<Rightarrow> bool" where
  "wantsPrependedResults opts \<longleftrightarrow> resultColumn opts = - 1"

text \<open>
  A row object: \<open>cells\<close> from the parser, and the two properties the later stages add.
  A property that is absent, \<open>undefined\<close> or \<open>null\<close> is \<open>None\<close>. An element of \<open>results\<close> is a
  string, or \<open>undefined\<close> (\<open>None\<close>) when the mapping has no entry for a record number.
\<close>

record row =
  cells :: "string list"
  recordNumbers :: "string list option"
  results :: "string option list option"

text \<open>
  The value the mapping holds for a record number: the array of codes, or one string.
\<close>

datatype resolution = Codes "string list" | Text string

record state =
  inputData :: "row list"

record state_m = state +
  mapping :: "string \<rightharpoonup> resolution"

datatype error = TypeError | StoreError string

text \<open>
  The store, \<open>t.any(query, recordNumber.substr(1))\<close>: its answer to a query, the list of the
  \<open>field_content\<close> strings or an error, may depend on the queries made before, so it takes
  the list of the earlier arguments as well.
\<close>

type_synonym store = "string list \<Rightarrow> string \<Rightarrow> error + string list"

section \<open>augmentInputDataWithRecordNumbers\<close>

text \<open>
  \<open>rowsToProcess\<close> holds the row objects of \<open>inputData\<close> behind the first \<open>skip\<close> ones, without
  those whose result cell is truthy when the results go into an existing column. The loop
  sets \<open>recordNumbers\<close> on these objects, which are the objects of \<open>inputData\<close>. Calling
  \<open>match\<close> on a cell that does not exist throws a TypeError, which ends the stage.
\<close>

definition rejected :: "options \<Rightarrow> row \<Rightarrow> bool" where
  "rejected opts x \<longleftrightarrow>
     \<not> wantsPrependedResults opts \<and> truthy (js_index (cells x) (resultColumn opts))"

definition extract_row :: "options \<Rightarrow> row \<Rightarrow> error + row" where
  "extract_row opts x =
     (if rejected opts x then Inr x
      else case js_index (cells x) (recordNumberColumn opts) of
             None \<Rightarrow> Inl TypeError
           | Some c \<Rightarrow> Inr (x\<lparr>recordNumbers := js_match (match_rn c)\<rparr>))"

fun for_rows :: "(row \<Rightarrow> error + row) \<Rightarrow> row list \<Rightarrow> error + row list" where
  "for_rows f [] = Inr []"
| "for_rows f (x # xs) =
     (case f x of
        Inl e \<Rightarrow> Inl e
      | Inr y \<Rightarrow> (case for_rows f xs of Inl e \<Rightarrow> Inl e | Inr ys \<Rightarrow> Inr (y # ys)))"

definition augmentInputDataWithRecordNumbers :: "options \<Rightarrow> state \<Rightarrow> error + state" where
  "augmentInputDataWithRecordNumbers opts s =
     (case for_rows (extract_row opts) (drop (nat (skip opts)) (inputData s)) of
        Inl e \<Rightarrow> Inl e
      | Inr ys \<Rightarrow> Inr (s\<lparr>inputData := take (nat (skip opts)) (inputData s) @ ys\<rparr>))"

section \<open>findUosCode\<close>

definition uniqSetOfRecordNumbers :: "row list \<Rightarrow> string list" where
  "uniqSetOfRecordNumbers rows =
     sortedUniq (sort (concat (filter_identity (map recordNumbers rows))))"

definition uosCodes :: "string list \<Rightarrow> string list" where
  "uosCodes courseFields =
     sortedUniq (sort (map replace_space
       (concat (filter_identity (map (\<lambda>x. js_match (match_uos x)) courseFields)))))"

definition resolve :: "string \<Rightarrow> string list \<Rightarrow> resolution" where
  "resolve recordNumber courseFields =
     (if length (uosCodes courseFields) > 0 then Codes (uosCodes courseFields)
      else if length courseFields > 0 then Text (courseFields ! 0)
      else Text recordNumber)"

text \<open>
  The loop over the distinct record numbers. Each round asks the store with the record
  number without its first code unit and sets the mapping; an error of the store leaves the
  loop and the function at once. The list of the arguments the store has been asked with is
  kept and returned beside the result.
\<close>

fun query_loop ::
  "store \<Rightarrow> string list \<Rightarrow> (string \<rightharpoonup> resolution) \<Rightarrow> string list
     \<Rightarrow> string list \<times> (error + (string \<rightharpoonup> resolution))" where
  "query_loop st asked m [] = (asked, Inr m)"
| "query_loop st asked m (recordNumber # rest) =
     (case st asked (drop 1 recordNumber) of
        Inl e \<Rightarrow> (asked @ [drop 1 recordNumber], Inl e)
      | Inr courseFields \<Rightarrow>
          query_loop st (asked @ [drop 1 recordNumber])
            (m(recordNumber \<mapsto> resolve recordNumber courseFields)) rest)"

definition findUosCode :: "store \<Rightarrow> state \<Rightarrow> string list \<times> (error + state_m)" where
  "findUosCode st s =
     (case query_loop st [] Map.empty (uniqSetOfRecordNumbers (inputData s)) of
        (asked, Inl e) \<Rightarrow> (asked, Inl e)
      | (asked, Inr m) \<Rightarrow> (asked, Inr \<lparr>inputData = inputData s, mapping = m\<rparr>))"

section \<open>augmentInputDataWithResults\<close>

text \<open>
  \<open>_fp.flattenDeep\<close> spreads a value that is an array and keeps any other value as one
  element.
\<close>

definition flatten_value :: "resolution option \<Rightarrow> string option list" where
  "flatten_value v =
     (case v of None \<Rightarrow> [None] | Some (Codes cs) \<Rightarrow> map Some cs | Some (Text t) \<Rightarrow> [Some t])"

definition row_results :: "(string \<rightharpoonup> resolution) \<Rightarrow> string list \<Rightarrow> string option list" where
  "row_results m rns = uniq (concat (map (\<lambda>x. flatten_value (m x)) rns))"

definition assemble_row :: "(string \<rightharpoonup> resolution) \<Rightarrow> row \<Rightarrow> row" where
  "assemble_row m x =
     (case recordNumbers x of
        None \<Rightarrow> x
      | Some rns \<Rightarrow> x\<lparr>results := Some (row_results m rns)\<rparr>)"

definition augmentInputDataWithResults :: "state_m \<Rightarrow> state_m" where
  "augmentInputDataWithResults s = s\<lparr>inputData := map (assemble_row (mapping s)) (inputData s)\<rparr>"

section \<open>The two output functions and the pipeline\<close>

text \<open>
  The output is the list of the arrays written to the CSV stringifier, in the order of the
  writes. A cell is a string, or a hole (\<open>None\<close>).
\<close>

definition outputInExistingColumn :: "options \<Rightarrow> state_m \<Rightarrow> string option list list" where
  "outputInExistingColumn opts s =
     map (\<lambda>x. Some [] # map Some (cells x)) (take (nat (skip opts)) (inputData s))
     @ map (\<lambda>x. case results x of
                  Some r \<Rightarrow> js_assign (map Some (cells x)) (resultColumn opts) (join '', '' r)
                | None \<Rightarrow> map Some (cells x))
         (drop (nat (skip opts)) (inputData s))"

definition outputInNewColumn :: "options \<Rightarrow> state_m \<Rightarrow> string option list list" where
  "outputInNewColumn opts s =
     map (\<lambda>x. map Some (cells x)) (take (nat (skip opts)) (inputData s))
     @ map (\<lambda>x. case results x of
                  Some r \<Rightarrow> Some (join '', '' r) # map Some (cells x)
                | None \<Rightarrow> Some [] # map Some (cells x))
         (drop (nat (skip opts)) (inputData s))"

text \<open>
  \<open>loadInputFile\<close> gives one row object per record of the parser, with \<open>cells\<close> only.
  The promise chain runs the stages in order; the first error ends it, and no later stage
  runs. The result is the list of the store queries made and the error or the rows written.
\<close>

definition loadInputFile :: "string list list \<Rightarrow> state" where
  "loadInputFile table =
     \<lparr>inputData = map (\<lambda>data. \<lparr>cells = data, recordNumbers = None, results = None\<rparr>) table\<rparr>"

definition run ::
  "options \<Rightarrow> store \<Rightarrow> string list list \<Rightarrow> string list \<times> (error + string option list list)" where
  "run opts st table =
     (case augmentInputDataWithRecordNumbers opts (loadInputFile table) of
        Inl e \<Rightarrow> ([], Inl e)
      | Inr s1 \<Rightarrow>
          (case findUosCode st s1 of
             (asked, Inl e) \<Rightarrow> (asked, Inl e)
           | (asked, Inr s2) \<Rightarrow>
               (asked, Inr ((if wantsPrependedResults opts then outputInNewColumn
                             else outputInExistingColumn) opts
                            (augmentInputDataWithResults s2)))))"

section \<open>Reference definitions\<close>

text \<open>
  What the specification says the scans, the normalisation and the flattening compute,
  written without reference to the way the program computes them: the substrings at all
  the positions where the record-number pattern matches, from left to right; the matches
  of the UOS pattern at all the positions where it matches, from left to right; a match
  without its white space; the values a resolution stands for, the codes of an array of
  codes or the one fallback text; and the elements of a list at the positions of their
  first occurrence, in the order of the list.
\<close>

definition rn_occurrences :: "string \<Rightarrow> string list" where
  "rn_occurrences s =
     map (\<lambda>i. take 8 (drop i s)) (filter (\<lambda>i. rn_at (drop i s)) [0..<length s])"

definition uos_occurrences :: "string \<Rightarrow> string list" where
  "uos_occurrences s =
     map (\<lambda>i. the (uos_at (drop i s))) (filter (\<lambda>i. uos_at (drop i s) \<noteq> None) [0..<length s])"

definition strip_white_space :: "string \<Rightarrow> string" where
  "strip_white_space m = filter (\<lambda>c. \<not> is_space c) m"

fun resolution_values :: "resolution \<Rightarrow> string list" where
  "resolution_values (Codes codes) = codes"
| "resolution_values (Text t) = [t]"

definition first_occurrences :: "'a list \<Rightarrow> 'a list" where
  "first_occurrences xs =
     map (\<lambda>i. xs ! i) (filter (\<lambda>i. xs ! i \<notin> set (take i xs)) [0..<length xs])"

section \<open>Properties of the list functions\<close>

subsection \<open>sortedUniq\<close>

lemma sortedUniq_from_remdups_adj: "seen # sortedUniq_from seen xs = remdups_adj (seen # xs)"
  by (induction xs arbitrary: seen) auto

lemma sortedUniq_remdups_adj: "sortedUniq xs = remdups_adj xs"
  by (cases xs) (simp_all add: sortedUniq_from_remdups_adj)

lemma distinct_remdups_adj_sorted: "sorted xs \<Longrightarrow> distinct (remdups_adj xs)"
  by (induction xs rule: remdups_adj.induct) (auto split: if_split_asm)

lemma set_sortedUniq_sort: "set (sortedUniq (sort xs)) = set xs"
  by (simp add: sortedUniq_remdups_adj)

lemma sorted_sortedUniq_sort: "sorted (sortedUniq (sort xs))"
  by (simp add: sortedUniq_remdups_adj)

lemma distinct_sortedUniq_sort: "distinct (sortedUniq (sort xs))"
  by (simp add: sortedUniq_remdups_adj distinct_remdups_adj_sorted)

subsection \<open>filter identity\<close>

lemma filter_identity_js_match:
  "concat (filter_identity (map (\<lambda>x. js_match (f x)) xs)) = concat (map f xs)"
  by (induction xs) (auto simp: js_match_def)

subsection \<open>uniq\<close>

lemma uniq_into_positions:
  "uniq_into acc xs =
     acc @ map (\<lambda>i. xs ! i) (filter (\<lambda>i. xs ! i \<notin> set acc \<union> set (take i xs)) [0..<length xs])"
proof (induction xs arbitrary: acc)
  case Nil
  then show ?case by simp
next
  case (Cons x xs)
  have upt: "[0..<length (x # xs)] = 0 # map Suc [0..<length xs]"
    by (simp add: upt_conv_Cons map_Suc_upt del: upt_Suc)
  show ?case
  proof (cases "x \<in> set acc")
    case True
    then have "\<And>y P. (y \<notin> set acc \<and> y \<noteq> x \<and> P) \<longleftrightarrow> (y \<notin> set acc \<and> P)"
      by auto
    with True show ?thesis
      unfolding upt by (simp add: Cons.IH filter_map comp_def)
  next
    case False
    then show ?thesis
      unfolding upt by (simp add: Cons.IH filter_map comp_def conj_left_commute)
  qed
qed

lemma uniq_first_occurrences: "uniq xs = first_occurrences xs"
  by (simp add: uniq_def first_occurrences_def uniq_into_positions)

lemma set_uniq_into: "set (uniq_into acc xs) = set acc \<union> set xs"
  by (induction xs arbitrary: acc) auto

lemma distinct_uniq_into: "distinct acc \<Longrightarrow> distinct (uniq_into acc xs)"
  by (induction xs arbitrary: acc) auto

lemma set_uniq: "set (uniq xs) = set xs"
  by (simp add: uniq_def set_uniq_into)

lemma distinct_uniq: "distinct (uniq xs)"
  by (simp add: uniq_def distinct_uniq_into)

section \<open>The record-number scan\<close>

lemma upt_0_Suc: "[0..<Suc n] = 0 # map Suc [0..<n]"
  by (simp add: upt_conv_Cons map_Suc_upt del: upt_Suc)

lemma rn_occurrences_Nil: "rn_occurrences [] = []"
  by (simp add: rn_occurrences_def)

lemma rn_occurrences_Cons:
  "rn_occurrences (c # cs) = (if rn_at (c # cs) then [take 8 (c # cs)] else []) @ rn_occurrences cs"
proof -
  have "[0..<length (c # cs)] = 0 # map Suc [0..<length cs]"
    by (simp add: upt_0_Suc del: upt_Suc)
  then show ?thesis
    by (simp add: rn_occurrences_def filter_map comp_def del: upt_Suc)
qed

lemma not_digit_r: "\<not> is_digit CHR ''r''"
  by (simp add: is_digit_def)

lemma rn_at_Cons: "rn_at (c # cs) \<longleftrightarrow> c = CHR ''r'' \<and> 7 \<le> length cs \<and> list_all is_digit (take 7 cs)"
  by (simp add: rn_at_def)

lemma rn_occurrences_skip_digits:
  "list_all is_digit (take k cs) \<Longrightarrow> k \<le> length cs \<Longrightarrow> rn_occurrences cs = rn_occurrences (drop k cs)"
proof (induction k arbitrary: cs)
  case 0
  then show ?case by simp
next
  case (Suc k)
  then obtain d ds where cs: "cs = d # ds" by (cases cs) auto
  with Suc.prems have d: "is_digit d" and ds: "list_all is_digit (take k ds)" "k \<le> length ds"
    by auto
  from d have "\<not> rn_at (d # ds)"
    using not_digit_r by (auto simp: rn_at_Cons)
  then have "rn_occurrences cs = rn_occurrences ds"
    by (simp add: cs rn_occurrences_Cons)
  also have "\<dots> = rn_occurrences (drop k ds)" by (rule Suc.IH [OF ds])
  finally show ?case by (simp add: cs)
qed

lemma match_rn_occurrences: "match_rn s = rn_occurrences s"
proof (induction s rule: match_rn.induct)
  case 1
  then show ?case by (simp add: rn_occurrences_Nil)
next
  case (2 c cs)
  show ?case
  proof (cases "rn_at (c # cs)")
    case True
    then have "list_all is_digit (take 7 cs)" "7 \<le> length cs"
      by (simp_all add: rn_at_Cons)
    then have "rn_occurrences cs = rn_occurrences (drop 7 cs)"
      by (rule rn_occurrences_skip_digits)
    with True 2 show ?thesis by (simp add: rn_occurrences_Cons)
  next
    case False
    with 2 show ?thesis by (simp add: rn_occurrences_Cons)
  qed
qed

lemma rn_at_drop:
  "rn_at (drop i s) \<longleftrightarrow> i + 8 \<le> length s \<and> s ! i = CHR ''r'' \<and> (\<forall>k<7. is_digit (s ! (i + 1 + k)))"
proof (cases "i < length s")
  case True
  then have d: "drop i s = s ! i # drop (Suc i) s" by (simp add: Cons_nth_drop_Suc)
  show ?thesis
    unfolding d rn_at_Cons using True
    by (auto simp: list_all_length)
next
  case False
  then show ?thesis by (simp add: rn_at_def)
qed

lemma rn_occurrences_disjoint:
  assumes "rn_at (drop i s)" "rn_at (drop j s)" "i < j"
  shows "i + 8 \<le> j"
proof (rule ccontr)
  assume "\<not> i + 8 \<le> j"
  define k where "k = j - i - 1"
  with \<open>i < j\<close> \<open>\<not> i + 8 \<le> j\<close> have k: "k < 7" "j = i + 1 + k"
    by arith+
  from assms(1) k have "is_digit (s ! j)" by (simp add: rn_at_drop)
  moreover from assms(2) have "s ! j = CHR ''r''" by (simp add: rn_at_drop)
  ultimately show False using not_digit_r by simp
qed

lemma rn_at_take: "rn_at (take 8 s) \<longleftrightarrow> rn_at s"
proof (cases s)
  case Nil
  then show ?thesis by simp
next
  case (Cons c cs)
  have "take 8 (c # cs) = c # take 7 cs" by (simp add: take_Cons')
  then show ?thesis by (simp add: Cons rn_at_Cons)
qed

lemma rn_at_length: "rn_at s \<Longrightarrow> 8 \<le> length s"
  by (cases s) (auto simp: rn_at_Cons rn_at_def)

lemma rn_occurrences_shape:
  "m \<in> set (rn_occurrences s) \<Longrightarrow> rn_at m \<and> length m = 8"
proof -
  assume "m \<in> set (rn_occurrences s)"
  then obtain i where i: "m = take 8 (drop i s)" "rn_at (drop i s)"
    by (auto simp: rn_occurrences_def)
  from i(2) have "8 \<le> length (drop i s)" by (rule rn_at_length)
  with i show ?thesis by (simp add: rn_at_take)
qed

section \<open>augmentInputDataWithRecordNumbers: the loop and its error\<close>

lemma for_rows_Inr_iff:
  "for_rows f xs = Inr ys \<longleftrightarrow> list_all2 (\<lambda>x y. f x = Inr y) xs ys"
proof (induction xs arbitrary: ys)
  case Nil
  then show ?case by auto
next
  case (Cons x xs)
  show ?case
    by (cases ys) (auto simp: Cons.IH [symmetric] split: sum.splits)
qed

lemma for_rows_fails_iff:
  "(\<exists>e. for_rows f xs = Inl e) \<longleftrightarrow> (\<exists>x\<in>set xs. \<exists>e. f x = Inl e)"
  by (induction xs) (auto split: sum.splits)

lemma for_rows_error_from: "for_rows f xs = Inl e \<Longrightarrow> \<exists>x\<in>set xs. f x = Inl e"
  by (induction xs) (auto split: sum.splits)

lemma recordNumberColumn_nonneg: "0 \<le> recordNumberColumn opts"
  by (simp add: recordNumberColumn_def)

lemma js_index_None_iff: "0 \<le> i \<Longrightarrow> js_index xs i = None \<longleftrightarrow> length xs \<le> nat i"
  by (auto simp: js_index_def)

lemma extract_row_Inl_iff:
  "extract_row opts x = Inl e \<longleftrightarrow>
     e = TypeError \<and> \<not> rejected opts x \<and> length (cells x) \<le> nat (recordNumberColumn opts)"
  using js_index_None_iff [OF recordNumberColumn_nonneg, of "cells x" opts]
  by (auto simp: extract_row_def split: option.splits)

lemma augment_Inl_iff:
  "augmentInputDataWithRecordNumbers opts s = Inl e \<longleftrightarrow>
     for_rows (extract_row opts) (drop (nat (skip opts)) (inputData s)) = Inl e"
  by (simp add: augmentInputDataWithRecordNumbers_def split: sum.splits)

text \<open>
  C10. The extraction reads the cell at \<open>recordNumberColumn\<close> of every row it processes
  without a check of the row's length. The stage ends with a TypeError exactly when some row
  behind the skipped ones, not set aside for its filled result cell, has no cell at that
  index, and it returns its state exactly when every such row has one; a missing cell is not
  read as empty text. A table of one-cell rows with \<open>column = 2\<close> reaches the error.
\<close>

theorem extraction_fails_iff_cell_missing:
  "(augmentInputDataWithRecordNumbers opts s = Inl TypeError \<longleftrightarrow>
      (\<exists>x\<in>set (drop (nat (skip opts)) (inputData s)).
         \<not> rejected opts x \<and> length (cells x) \<le> nat (recordNumberColumn opts)))
   \<and> ((\<exists>s'. augmentInputDataWithRecordNumbers opts s = Inr s') \<longleftrightarrow>
      (\<forall>x\<in>set (drop (nat (skip opts)) (inputData s)).
         rejected opts x \<or> nat (recordNumberColumn opts) < length (cells x)))"
proof -
  let ?rows = "drop (nat (skip opts)) (inputData s)"
  let ?bad = "\<exists>x\<in>set ?rows. \<not> rejected opts x \<and> length (cells x) \<le> nat (recordNumberColumn opts)"
  have fails: "(\<exists>e. for_rows (extract_row opts) ?rows = Inl e) \<longleftrightarrow> ?bad"
    by (auto simp: for_rows_fails_iff extract_row_Inl_iff)
  have only: "e = TypeError" if "for_rows (extract_row opts) ?rows = Inl e" for e
    using for_rows_error_from [OF that] by (auto simp: extract_row_Inl_iff)
  have a: "augmentInputDataWithRecordNumbers opts s = Inl TypeError \<longleftrightarrow> ?bad"
    using fails only by (auto simp: augment_Inl_iff)
  have "(\<exists>s'. augmentInputDataWithRecordNumbers opts s = Inr s') \<longleftrightarrow>
        \<not> (\<exists>e. for_rows (extract_row opts) ?rows = Inl e)"
    by (auto simp: augmentInputDataWithRecordNumbers_def split: sum.splits)
  then have b: "(\<exists>s'. augmentInputDataWithRecordNumbers opts s = Inr s') \<longleftrightarrow> \<not> ?bad"
    using fails by simp
  from a b show ?thesis by (auto simp: not_le)
qed

theorem extraction_fails_iff_cell_missing_witness:
  "augmentInputDataWithRecordNumbers \<lparr>skip = 1, column = 2, result_column = 0\<rparr>
       (loadInputFile [[''number''], [''r1006349'']]) = Inl TypeError
   \<and> (\<exists>s'. augmentInputDataWithRecordNumbers \<lparr>skip = 1, column = 1, result_column = 0\<rparr>
       (loadInputFile [[''number''], [''r1006349'']]) = Inr s')"
proof -
  let ?s = "loadInputFile [[''number''], [''r1006349'']]"
  let ?o2 = "\<lparr>skip = 1, column = 2, result_column = 0\<rparr>"
  let ?o1 = "\<lparr>skip = 1, column = 1, result_column = 0\<rparr>"
  have "\<exists>x\<in>set (drop (nat (skip ?o2)) (inputData ?s)).
         \<not> rejected ?o2 x \<and> length (cells x) \<le> nat (recordNumberColumn ?o2)"
    by code_simp
  moreover have "\<forall>x\<in>set (drop (nat (skip ?o1)) (inputData ?s)).
         rejected ?o1 x \<or> nat (recordNumberColumn ?o1) < length (cells x)"
    by code_simp
  ultimately show ?thesis
    using extraction_fails_iff_cell_missing [of ?o2 ?s] extraction_fails_iff_cell_missing [of ?o1 ?s]
    by blast
qed

section \<open>The record numbers of a row\<close>

lemma augment_Inr_rows:
  assumes "augmentInputDataWithRecordNumbers opts s = Inr s'"
  shows "length (inputData s') = length (inputData s)"
    and "i < length (inputData s) \<Longrightarrow> i < nat (skip opts) \<Longrightarrow> inputData s' ! i = inputData s ! i"
    and "i < length (inputData s) \<Longrightarrow> nat (skip opts) \<le> i \<Longrightarrow>
           extract_row opts (inputData s ! i) = Inr (inputData s' ! i)"
proof -
  let ?k = "nat (skip opts)"
  from assms obtain ys where ys: "for_rows (extract_row opts) (drop ?k (inputData s)) = Inr ys"
    and s': "inputData s' = take ?k (inputData s) @ ys"
    by (auto simp: augmentInputDataWithRecordNumbers_def split: sum.splits)
  from ys have all2: "list_all2 (\<lambda>x y. extract_row opts x = Inr y) (drop ?k (inputData s)) ys"
    by (simp add: for_rows_Inr_iff)
  then have len: "length ys = length (inputData s) - ?k"
    by (auto dest: list_all2_lengthD)
  show "length (inputData s') = length (inputData s)"
    by (simp add: s' len)
  show "inputData s' ! i = inputData s ! i" if "i < length (inputData s)" "i < ?k"
    using that by (simp add: s' nth_append)
  show "extract_row opts (inputData s ! i) = Inr (inputData s' ! i)"
    if "i < length (inputData s)" "?k \<le> i"
  proof -
    from that have j: "i - ?k < length (drop ?k (inputData s))" by simp
    from list_all2_nthD [OF all2 j] that
    have "extract_row opts (inputData s ! i) = Inr (ys ! (i - ?k))" by simp
    moreover from that have "inputData s' ! i = ys ! (i - ?k)"
      by (simp add: s' nth_append min_def)
    ultimately show ?thesis by simp
  qed
qed

text \<open>
  C4. The record numbers of a processed row are the substrings of its designated cell at
  all the positions where the pattern r + seven digits matches, from left to right and
  with repetitions; two such positions are at least eight apart, so the matches do not
  overlap. When there is no such position the row has no \<open>recordNumbers\<close>, and the results
  stage leaves the row as it is, for any mapping.
\<close>

theorem record_numbers_are_all_matches:
  "match_rn cell = rn_occurrences cell
   \<and> (\<forall>p q. p < q \<and> rn_at (drop p cell) \<and> rn_at (drop q cell) \<longrightarrow> p + 8 \<le> q)
   \<and> (augmentInputDataWithRecordNumbers opts s = Inr s'
        \<and> i < length (inputData s) \<and> nat (skip opts) \<le> i
        \<and> \<not> rejected opts (inputData s ! i)
        \<and> js_index (cells (inputData s ! i)) (recordNumberColumn opts) = Some cell
      \<longrightarrow> recordNumbers (inputData s' ! i)
            = (if rn_occurrences cell = [] then None else Some (rn_occurrences cell))
        \<and> assemble_row m (inputData s' ! i)
            = (if rn_occurrences cell = [] then inputData s' ! i
               else (inputData s' ! i)\<lparr>results := Some (row_results m (rn_occurrences cell))\<rparr>))"
proof (intro conjI impI allI)
  show "match_rn cell = rn_occurrences cell"
    by (rule match_rn_occurrences)
  show "p + 8 \<le> q" if "p < q \<and> rn_at (drop p cell) \<and> rn_at (drop q cell)" for p q
    using that rn_occurrences_disjoint [of p cell q] by simp
  assume a: "augmentInputDataWithRecordNumbers opts s = Inr s'
        \<and> i < length (inputData s) \<and> nat (skip opts) \<le> i
        \<and> \<not> rejected opts (inputData s ! i)
        \<and> js_index (cells (inputData s ! i)) (recordNumberColumn opts) = Some cell"
  then have "extract_row opts (inputData s ! i) = Inr (inputData s' ! i)"
    using augment_Inr_rows(3) [of opts s s' i] by simp
  with a have row: "inputData s' ! i = (inputData s ! i)\<lparr>recordNumbers := js_match (match_rn cell)\<rparr>"
    by (simp add: extract_row_def)
  show rn: "recordNumbers (inputData s' ! i)
      = (if rn_occurrences cell = [] then None else Some (rn_occurrences cell))"
    by (simp add: row js_match_def match_rn_occurrences)
  then show "assemble_row m (inputData s' ! i)
      = (if rn_occurrences cell = [] then inputData s' ! i
         else (inputData s' ! i)\<lparr>results := Some (row_results m (rn_occurrences cell))\<rparr>)"
    by (simp add: assemble_row_def)
qed

theorem record_numbers_are_all_matches_witness:
  "augmentInputDataWithRecordNumbers \<lparr>skip = 1, column = 1, result_column = 0\<rparr>
       (loadInputFile [[''number''], [''\"r1006349\"; r1006370r1006349''], [''r123456'']])
     = Inr \<lparr>inputData =
         [\<lparr>cells = [''number''], recordNumbers = None, results = None\<rparr>,
          \<lparr>cells = [''\"r1006349\"; r1006370r1006349''],
           recordNumbers = Some [''r1006349'', ''r1006370'', ''r1006349''], results = None\<rparr>,
          \<lparr>cells = [''r123456''], recordNumbers = None, results = None\<rparr>]\<rparr>
   \<and> match_rn ''\"r1006349\"; r1006370r1006349'' = [''r1006349'', ''r1006370'', ''r1006349'']
   \<and> rn_occurrences ''\"r1006349\"; r1006370r1006349'' = [''r1006349'', ''r1006370'', ''r1006349'']
   \<and> match_rn ''r123456'' = []
   \<and> assemble_row Map.empty \<lparr>cells = [''r123456''], recordNumbers = None, results = None\<rparr>
       = \<lparr>cells = [''r123456''], recordNumbers = None, results = None\<rparr>"
proof -
  let ?opts = "\<lparr>skip = 1, column = 1, result_column = 0\<rparr>"
  let ?s = "loadInputFile [[''number''], [''\"r1006349\"; r1006370r1006349''], [''r123456'']]"
  let ?s' = "\<lparr>inputData =
         [\<lparr>cells = [''number''], recordNumbers = None, results = None\<rparr>,
          \<lparr>cells = [''\"r1006349\"; r1006370r1006349''],
           recordNumbers = Some [''r1006349'', ''r1006370'', ''r1006349''], results = None\<rparr>,
          \<lparr>cells = [''r123456''], recordNumbers = None, results = None\<rparr>]\<rparr>"
  have run: "augmentInputDataWithRecordNumbers ?opts ?s = Inr ?s'"
    by code_simp
  have row1: "1 < length (inputData ?s) \<and> nat (skip ?opts) \<le> 1
      \<and> \<not> rejected ?opts (inputData ?s ! 1)
      \<and> js_index (cells (inputData ?s ! 1)) (recordNumberColumn ?opts)
          = Some ''\"r1006349\"; r1006370r1006349''"
    by code_simp
  have row2: "2 < length (inputData ?s) \<and> nat (skip ?opts) \<le> 2
      \<and> \<not> rejected ?opts (inputData ?s ! 2)
      \<and> js_index (cells (inputData ?s ! 2)) (recordNumberColumn ?opts) = Some ''r123456''"
    by code_simp
  have occ1: "rn_occurrences ''\"r1006349\"; r1006370r1006349'' = [''r1006349'', ''r1006370'', ''r1006349'']"
    by code_simp
  have occ2: "rn_occurrences ''r123456'' = []"
    by code_simp
  from record_numbers_are_all_matches
    [of "''\"r1006349\"; r1006370r1006349''" ?opts ?s ?s' 1 Map.empty] run row1
  have m1: "match_rn ''\"r1006349\"; r1006370r1006349''
      = rn_occurrences ''\"r1006349\"; r1006370r1006349''"
    by blast
  from record_numbers_are_all_matches [of "''r123456''" ?opts ?s ?s' 2 Map.empty] run row2
  have m2: "match_rn ''r123456'' = rn_occurrences ''r123456''"
    and a2: "assemble_row Map.empty (inputData ?s' ! 2)
      = (if rn_occurrences ''r123456'' = [] then inputData ?s' ! 2
         else (inputData ?s' ! 2)\<lparr>results := Some (row_results Map.empty (rn_occurrences ''r123456''))\<rparr>)"
    by blast+
  from a2 have "assemble_row Map.empty \<lparr>cells = [''r123456''], recordNumbers = None, results = None\<rparr>
       = \<lparr>cells = [''r123456''], recordNumbers = None, results = None\<rparr>"
    unfolding occ2 by simp
  with run m1 m2 occ1 occ2 show ?thesis by simp
qed

section \<open>The scan for the codes\<close>

lemma uos_occurrences_Nil: "uos_occurrences [] = []"
  by (simp add: uos_occurrences_def)

lemma uos_occurrences_Cons:
  "uos_occurrences (c # cs)
     = (case uos_at (c # cs) of None \<Rightarrow> [] | Some m \<Rightarrow> [m]) @ uos_occurrences cs"
proof -
  have "[0..<length (c # cs)] = 0 # map Suc [0..<length cs]"
    by (simp add: upt_0_Suc del: upt_Suc)
  then show ?thesis
    by (auto simp: uos_occurrences_def filter_map comp_def simp del: upt_Suc)
qed

lemma uos_occurrences_skip:
  "\<forall>k<n. uos_at (drop k cs) = None \<Longrightarrow> n \<le> length cs \<Longrightarrow>
     uos_occurrences cs = uos_occurrences (drop n cs)"
proof (induction n arbitrary: cs)
  case 0
  then show ?case by simp
next
  case (Suc n)
  then obtain d ds where cs: "cs = d # ds" by (cases cs) auto
  from Suc.prems(1) have "uos_at (drop 0 cs) = None" by blast
  then have "uos_occurrences cs = uos_occurrences ds"
    by (simp add: cs uos_occurrences_Cons)
  moreover have "\<forall>k<n. uos_at (drop k ds) = None"
  proof (intro allI impI)
    fix k assume "k < n"
    with Suc.prems(1) have "uos_at (drop (Suc k) cs) = None" by simp
    then show "uos_at (drop k ds) = None" by (simp add: cs)
  qed
  moreover from Suc.prems(2) have "n \<le> length ds" by (simp add: cs)
  ultimately show ?case
    using Suc.IH [of ds] by (simp add: cs)
qed

lemma not_upper_space: "is_space c \<Longrightarrow> \<not> is_upper c"
  by (auto simp: is_space_def is_upper_def)

lemma not_upper_digit: "is_digit c \<Longrightarrow> \<not> is_upper c"
  by (cases c) (auto simp: is_digit_def is_upper_def)

text \<open>A match is the four letters, the white space and the four digits the string begins with.\<close>

lemma uos_at_Some:
  assumes "uos_at s = Some m"
  shows "\<exists>ws ds rest. s = take 4 s @ ws @ ds @ rest \<and> m = take 4 s @ ws @ ds
           \<and> length (take 4 s) = 4 \<and> list_all is_upper (take 4 s)
           \<and> list_all is_space ws \<and> length ds = 4 \<and> list_all is_digit ds"
proof -
  let ?r = "drop 4 s"
  let ?ws = "takeWhile is_space ?r"
  let ?ds = "take 4 (dropWhile is_space ?r)"
  let ?rest = "drop 4 (dropWhile is_space ?r)"
  from assms have m: "m = take 4 s @ ?ws @ ?ds"
    and l: "length (take 4 s) = 4" "list_all is_upper (take 4 s)"
    and d: "length ?ds = 4" "list_all is_digit ?ds"
    by (auto simp: uos_at_def Let_def split: if_splits)
  have "s = take 4 s @ ?r" by simp
  also have "?r = ?ws @ dropWhile is_space ?r" by simp
  also have "dropWhile is_space ?r = ?ds @ ?rest" by simp
  finally have "s = take 4 s @ ?ws @ ?ds @ ?rest" .
  moreover have "list_all is_space ?ws"
    by (simp add: list_all_iff) (meson set_takeWhileD)
  ultimately show ?thesis using m l d by blast
qed

lemma uos_at_not_upper:
  assumes "uos_at s = Some m" and "4 \<le> q" and "q < length m"
  shows "\<not> is_upper (s ! q)"
proof -
  from uos_at_Some [OF assms(1)] obtain ws ds rest
    where s: "s = take 4 s @ ws @ ds @ rest" and m: "m = take 4 s @ ws @ ds"
      and l: "length (take 4 s) = 4"
      and ws: "list_all is_space ws" and ds: "list_all is_digit ds"
    by blast
  from assms(2,3) l m have q: "q - 4 < length (ws @ ds)" by simp
  have "s ! q = (take 4 s @ (ws @ ds) @ rest) ! q" using s by simp
  also have "\<dots> = (ws @ ds) ! (q - 4)"
    using assms(2) l q by (simp add: nth_append del: append_assoc)
  finally have "s ! q \<in> set (ws @ ds)" using q by (metis nth_mem)
  with ws ds show ?thesis
    by (auto simp: list_all_iff not_upper_space not_upper_digit)
qed

lemma uos_at_upper:
  assumes "uos_at t = Some m" and "j < 4"
  shows "j < length t \<and> is_upper (t ! j)"
proof -
  from uos_at_Some [OF assms(1)]
  have l: "length (take 4 t) = 4" and u: "list_all is_upper (take 4 t)" by blast+
  from l assms(2) have "j < length t" by simp
  moreover from u l assms(2) have "is_upper (take 4 t ! j)" by (simp add: list_all_length)
  ultimately show ?thesis using assms(2) by simp
qed

lemma uos_at_length: "uos_at s = Some m \<Longrightarrow> 8 \<le> length m \<and> length m \<le> length s"
proof -
  assume a: "uos_at s = Some m"
  from uos_at_Some [OF a] obtain ws ds rest
    where s: "s = take 4 s @ ws @ ds @ rest" and m: "m = take 4 s @ ws @ ds"
      and l: "length (take 4 s) = 4" "length ds = 4"
    by blast
  have "length s = 4 + (length ws + (4 + length rest))"
    using arg_cong [OF s, of length] by (simp only: length_append l)
  moreover have "length m = 4 + (length ws + 4)"
    by (simp only: m length_append l)
  ultimately show ?thesis by arith
qed

text \<open>No match begins inside a match.\<close>

lemma uos_at_inside:
  assumes "uos_at s = Some m" and "0 < p" and "p < length m"
  shows "uos_at (drop p s) = None"
proof (rule ccontr)
  assume "uos_at (drop p s) \<noteq> None"
  then obtain m' where m': "uos_at (drop p s) = Some m'" by auto
  define q where "q = max p 4"
  from uos_at_length [OF assms(1)] assms(3) have q: "4 \<le> q" "q < length m" "q - p < 4" "p \<le> q"
    using assms(2) by (auto simp: q_def)
  from uos_at_upper [OF m' q(3)] have "q - p < length (drop p s)" "is_upper (drop p s ! (q - p))"
    by simp_all
  with q(4) have "is_upper (s ! q)" by simp
  with uos_at_not_upper [OF assms(1) q(1,2)] show False by simp
qed

lemma match_uos_occurrences: "match_uos s = uos_occurrences s"
proof (induction s rule: match_uos.induct)
  case 1
  then show ?case by (simp add: uos_occurrences_Nil)
next
  case (2 c cs)
  show ?case
  proof (cases "uos_at (c # cs)")
    case None
    with 2(1) show ?thesis by (simp add: uos_occurrences_Cons)
  next
    case (Some m)
    let ?n = "length m - 1"
    from uos_at_length [OF Some] have len: "8 \<le> length m" "?n \<le> length cs" by auto
    have "\<forall>k<?n. uos_at (drop k cs) = None"
    proof (intro allI impI)
      fix k assume "k < ?n"
      then have "0 < Suc k" "Suc k < length m" by simp_all
      from uos_at_inside [OF Some this] show "uos_at (drop k cs) = None" by simp
    qed
    from uos_occurrences_skip [OF this len(2)] 2(2) [OF Some] Some
    show ?thesis by (simp add: uos_occurrences_Cons)
  qed
qed

section \<open>The resolution of a record number\<close>

lemma all_less_Suc_drop:
  "(\<forall>i<Suc n. P (drop i (c # cs))) \<longleftrightarrow> P (c # cs) \<and> (\<forall>i<n. P (drop i cs))"
proof
  assume a: "\<forall>i<Suc n. P (drop i (c # cs))"
  then have "P (drop 0 (c # cs))" by blast
  moreover have "\<forall>i<n. P (drop i cs)"
  proof (intro allI impI)
    fix i assume "i < n"
    with a have "P (drop (Suc i) (c # cs))" by blast
    then show "P (drop i cs)" by simp
  qed
  ultimately show "P (c # cs) \<and> (\<forall>i<n. P (drop i cs))" by simp
next
  assume a: "P (c # cs) \<and> (\<forall>i<n. P (drop i cs))"
  show "\<forall>i<Suc n. P (drop i (c # cs))"
  proof (intro allI impI)
    fix i assume "i < Suc n"
    with a show "P (drop i (c # cs))" by (cases i) auto
  qed
qed

lemma match_uos_Nil_iff:
  "match_uos f = [] \<longleftrightarrow> (\<forall>i<length f. uos_at (drop i f) = None)"
proof (induction f rule: match_uos.induct)
  case 1
  then show ?case by simp
next
  case (2 c cs)
  show ?case
  proof (cases "uos_at (c # cs)")
    case None
    with 2(1) show ?thesis
      using all_less_Suc_drop [of "length cs" "\<lambda>s. uos_at s = None" c cs] by simp
  next
    case (Some m)
    then show ?thesis
      using all_less_Suc_drop [of "length cs" "\<lambda>s. uos_at s = None" c cs] by simp
  qed
qed

lemma uosCodes_eq:
  "uosCodes courseFields = sortedUniq (sort (map replace_space (concat (map match_uos courseFields))))"
  by (simp add: uosCodes_def filter_identity_js_match)

lemma uosCodes_sorted_distinct:
  "sorted (uosCodes courseFields)" "distinct (uosCodes courseFields)"
  by (simp_all add: uosCodes_eq sorted_sortedUniq_sort distinct_sortedUniq_sort)

lemma set_uosCodes:
  "set (uosCodes courseFields) = replace_space ` (\<Union>f\<in>set courseFields. set (match_uos f))"
  by (simp add: uosCodes_eq set_sortedUniq_sort)

lemma uosCodes_Nil_iff:
  "uosCodes courseFields = [] \<longleftrightarrow> (\<forall>f\<in>set courseFields. match_uos f = [])"
proof -
  have "uosCodes courseFields = [] \<longleftrightarrow> set (uosCodes courseFields) = {}" by simp
  also have "\<dots> \<longleftrightarrow> (\<forall>f\<in>set courseFields. match_uos f = [])"
    by (simp add: set_uosCodes)
  finally show ?thesis .
qed

lemma uniq_into_distinct: "distinct (acc @ xs) \<Longrightarrow> uniq_into acc xs = acc @ xs"
  by (induction xs arbitrary: acc) auto

lemma uniq_distinct: "distinct xs \<Longrightarrow> uniq xs = xs"
  by (simp add: uniq_def uniq_into_distinct)

text \<open>The three cases of the resolution, with the normalisation the program has.\<close>

lemma resolve_three_tiers:
  "(courseFields = [] \<longrightarrow> resolve recordNumber courseFields = Text recordNumber)
   \<and> (courseFields \<noteq> [] \<and> (\<forall>f\<in>set courseFields. \<forall>i<length f. uos_at (drop i f) = None)
        \<longrightarrow> resolve recordNumber courseFields = Text (hd courseFields))
   \<and> ((\<exists>f\<in>set courseFields. \<exists>i<length f. uos_at (drop i f) \<noteq> None)
        \<longrightarrow> (\<exists>codes. resolve recordNumber courseFields = Codes codes
              \<and> codes \<noteq> [] \<and> sorted codes \<and> distinct codes
              \<and> set codes = replace_space ` (\<Union>f\<in>set courseFields. set (uos_occurrences f))
              \<and> join '', '' (row_results [recordNumber \<mapsto> resolve recordNumber courseFields]
                    [recordNumber])
                  = join '', '' (map Some codes)))"
proof (intro conjI impI)
  assume "courseFields = []"
  then show "resolve recordNumber courseFields = Text recordNumber"
    by (simp add: resolve_def uosCodes_eq)
next
  assume a: "courseFields \<noteq> [] \<and> (\<forall>f\<in>set courseFields. \<forall>i<length f. uos_at (drop i f) = None)"
  then have "uosCodes courseFields = []"
    by (simp add: uosCodes_Nil_iff match_uos_Nil_iff)
  with a show "resolve recordNumber courseFields = Text (hd courseFields)"
    by (simp add: resolve_def hd_conv_nth)
next
  assume "\<exists>f\<in>set courseFields. \<exists>i<length f. uos_at (drop i f) \<noteq> None"
  then have ne: "uosCodes courseFields \<noteq> []"
    by (simp add: uosCodes_Nil_iff match_uos_Nil_iff)
  then have r: "resolve recordNumber courseFields = Codes (uosCodes courseFields)"
    by (simp add: resolve_def)
  have "row_results [recordNumber \<mapsto> Codes (uosCodes courseFields)] [recordNumber]
      = map Some (uosCodes courseFields)"
    by (simp add: row_results_def flatten_value_def uniq_distinct distinct_map
        uosCodes_sorted_distinct(2))
  with ne r show "\<exists>codes. resolve recordNumber courseFields = Codes codes
      \<and> codes \<noteq> [] \<and> sorted codes \<and> distinct codes
      \<and> set codes = replace_space ` (\<Union>f\<in>set courseFields. set (uos_occurrences f))
      \<and> join '', '' (row_results [recordNumber \<mapsto> resolve recordNumber courseFields]
            [recordNumber])
          = join '', '' (map Some codes)"
    using uosCodes_sorted_distinct [of courseFields] set_uosCodes [of courseFields]
    by (simp add: match_uos_occurrences)
qed

text \<open>
  C1. Claimed: the value for a record number is the record number itself when the store
  returns no field, the text of the first field when no field holds a code, and otherwise
  the sorted list of the normalised codes without repetition. The first two hold. In the
  third the program normalises with \<open>replace(' ', '')\<close>, which removes one space only
  (C2): of the two matches \<open>ABCD  1234\<close> and \<open>ABCD1234\<close>, which are one code once the
  white space is removed, the first keeps a space, and the list holds the code twice.
\<close>

theorem resolution_holds_one_code_twice:
  "resolve ''r1006349'' [] = Text ''r1006349''
   \<and> resolve ''r1006349'' [''Law reading list'', ''LAWS 123''] = Text ''Law reading list''
   \<and> uos_occurrences ''WXYZ5678 or ABCD  1234'' = [''WXYZ5678'', ''ABCD  1234'']
   \<and> uos_occurrences ''ABCD1234'' = [''ABCD1234'']
   \<and> resolve ''r1006349'' [''WXYZ5678 or ABCD  1234'', ''ABCD1234'']
       = Codes [''ABCD 1234'', ''ABCD1234'', ''WXYZ5678'']
   \<and> map strip_white_space [''ABCD 1234'', ''ABCD1234'', ''WXYZ5678'']
       = [''ABCD1234'', ''ABCD1234'', ''WXYZ5678'']"
  by code_simp

section \<open>Normalisation of the codes\<close>

text \<open>
  C2. Claimed: for every match of the UOS pattern, the normalisation removes the white space
  inside the match, all of it and nothing else. The program removes the first space
  character only: a match with two spaces keeps one of them, a match with a tab keeps the
  tab, and the codes \<open>ABCD 1234\<close> and \<open>ABCD1234\<close> of one record are then not recognised as
  the same code.
\<close>

theorem normalisation_leaves_white_space:
  "match_uos ''ABCD  1234'' = [''ABCD  1234'']
   \<and> replace_space ''ABCD  1234'' = ''ABCD 1234''
   \<and> resolve ''r1006349'' [''ABCD  1234'', ''ABCD1234''] = Codes [''ABCD 1234'', ''ABCD1234'']
   \<and> match_uos (''ABCD'' @ [CHR 0x09] @ ''1234'') = [''ABCD'' @ [CHR 0x09] @ ''1234'']
   \<and> resolve ''r1006349'' [''ABCD'' @ [CHR 0x09] @ ''1234'']
       = Codes [''ABCD'' @ [CHR 0x09] @ ''1234'']"
  by code_simp

section \<open>The results of a row\<close>

lemma augmentInputDataWithResults_nth:
  "i < length (inputData s) \<Longrightarrow>
     inputData (augmentInputDataWithResults s) ! i = assemble_row (mapping s) (inputData s ! i)"
  by (simp add: augmentInputDataWithResults_def)

lemma length_augmentInputDataWithResults:
  "length (inputData (augmentInputDataWithResults s)) = length (inputData s)"
  by (simp add: augmentInputDataWithResults_def)

lemma row_results_first_occurrences:
  "row_results m rns = first_occurrences (concat (map (\<lambda>rn. flatten_value (m rn)) rns))"
  by (simp add: row_results_def uniq_first_occurrences)

section \<open>The stages on a parsed table\<close>

lemma nth_map_take_drop:
  "i < length xs \<Longrightarrow>
     (map f (take k xs) @ map g (drop k xs)) ! i = (if i < k then f (xs ! i) else g (xs ! i))"
  by (auto simp: nth_append min_def)

lemma length_outputInExistingColumn:
  "length (outputInExistingColumn opts s) = length (inputData s)"
  by (simp add: outputInExistingColumn_def)

lemma length_outputInNewColumn:
  "length (outputInNewColumn opts s) = length (inputData s)"
  by (simp add: outputInNewColumn_def)

lemma outputInExistingColumn_nth:
  "i < length (inputData s) \<Longrightarrow>
     outputInExistingColumn opts s ! i =
       (if i < nat (skip opts) then Some [] # map Some (cells (inputData s ! i))
        else case results (inputData s ! i) of
               Some r \<Rightarrow> js_assign (map Some (cells (inputData s ! i))) (resultColumn opts)
                           (join '', '' r)
             | None \<Rightarrow> map Some (cells (inputData s ! i)))"
  unfolding outputInExistingColumn_def by (simp only: nth_map_take_drop)

lemma outputInNewColumn_nth:
  "i < length (inputData s) \<Longrightarrow>
     outputInNewColumn opts s ! i =
       (if i < nat (skip opts) then map Some (cells (inputData s ! i))
        else case results (inputData s ! i) of
               Some r \<Rightarrow> Some (join '', '' r) # map Some (cells (inputData s ! i))
             | None \<Rightarrow> Some [] # map Some (cells (inputData s ! i)))"
  unfolding outputInNewColumn_def by (simp only: nth_map_take_drop)

lemma findUosCode_Inr:
  assumes "findUosCode st s = (asked, Inr s')"
  shows "inputData s' = inputData s"
    and "query_loop st [] Map.empty (uniqSetOfRecordNumbers (inputData s)) = (asked, Inr (mapping s'))"
  using assms by (auto simp: findUosCode_def split: prod.splits sum.splits)

lemma run_Inr:
  assumes "run opts st table = (asked, Inr out)"
  obtains s1 s2 where "augmentInputDataWithRecordNumbers opts (loadInputFile table) = Inr s1"
    and "findUosCode st s1 = (asked, Inr s2)"
    and "out = (if wantsPrependedResults opts then outputInNewColumn else outputInExistingColumn)
                 opts (augmentInputDataWithResults s2)"
  using assms by (auto simp: run_def split: sum.splits prod.splits)

lemma loadInputFile_nth:
  "length (inputData (loadInputFile table)) = length table"
  "i < length table \<Longrightarrow>
     inputData (loadInputFile table) ! i = \<lparr>cells = table ! i, recordNumbers = None, results = None\<rparr>"
  by (simp_all add: loadInputFile_def)

lemma extract_row_Inr:
  assumes "extract_row opts x = Inr y"
  shows "cells y = cells x" and "results y = results x"
    and "rejected opts x \<Longrightarrow> y = x"
    and "\<not> rejected opts x \<Longrightarrow>
           \<exists>c. js_index (cells x) (recordNumberColumn opts) = Some c
               \<and> recordNumbers y = js_match (match_rn c)"
  using assms by (auto simp: extract_row_def split: if_splits option.splits)

text \<open>The rows after the first stage, for a table as the parser gives it.\<close>

lemma extracted_rows:
  assumes "augmentInputDataWithRecordNumbers opts (loadInputFile table) = Inr s1"
  shows "length (inputData s1) = length table"
    and "i < length table \<Longrightarrow> cells (inputData s1 ! i) = table ! i"
    and "i < length table \<Longrightarrow> results (inputData s1 ! i) = None"
    and "i < length table \<Longrightarrow> i < nat (skip opts) \<Longrightarrow> recordNumbers (inputData s1 ! i) = None"
    and "i < length table \<Longrightarrow> nat (skip opts) \<le> i \<Longrightarrow>
           \<not> wantsPrependedResults opts \<Longrightarrow> truthy (js_index (table ! i) (resultColumn opts)) \<Longrightarrow>
           recordNumbers (inputData s1 ! i) = None"
    and "i < length table \<Longrightarrow> nat (skip opts) \<le> i \<Longrightarrow>
           wantsPrependedResults opts \<or> \<not> truthy (js_index (table ! i) (resultColumn opts)) \<Longrightarrow>
           nat (recordNumberColumn opts) < length (table ! i)
           \<and> recordNumbers (inputData s1 ! i)
               = js_match (match_rn (table ! i ! nat (recordNumberColumn opts)))"
proof -
  let ?s = "loadInputFile table"
  note rows = augment_Inr_rows [OF assms]
  show "length (inputData s1) = length table"
    by (simp add: rows(1) loadInputFile_nth)
  have skipped: "inputData s1 ! i = inputData ?s ! i" if "i < length table" "i < nat (skip opts)" for i
    using that rows(2) [of i] by (simp add: loadInputFile_nth)
  have other: "extract_row opts (inputData ?s ! i) = Inr (inputData s1 ! i)"
    if "i < length table" "nat (skip opts) \<le> i" for i
    using that rows(3) [of i] by (simp add: loadInputFile_nth)
  show "cells (inputData s1 ! i) = table ! i" if "i < length table"
  proof (cases "i < nat (skip opts)")
    case True
    with that show ?thesis by (simp add: skipped loadInputFile_nth)
  next
    case False
    with that extract_row_Inr(1) [OF other [of i]] show ?thesis
      by (simp add: loadInputFile_nth)
  qed
  show "results (inputData s1 ! i) = None" if "i < length table"
  proof (cases "i < nat (skip opts)")
    case True
    with that show ?thesis by (simp add: skipped loadInputFile_nth)
  next
    case False
    with that extract_row_Inr(2) [OF other [of i]] show ?thesis
      by (simp add: loadInputFile_nth)
  qed
  show "recordNumbers (inputData s1 ! i) = None" if "i < length table" "i < nat (skip opts)"
    using that by (simp add: skipped loadInputFile_nth)
  show "recordNumbers (inputData s1 ! i) = None"
    if "i < length table" "nat (skip opts) \<le> i" "\<not> wantsPrependedResults opts"
      "truthy (js_index (table ! i) (resultColumn opts))"
  proof -
    from that have "rejected opts (inputData ?s ! i)"
      by (simp add: rejected_def loadInputFile_nth)
    from extract_row_Inr(3) [OF other [OF that(1,2)] this] that(1) show ?thesis
      by (simp add: loadInputFile_nth)
  qed
  show "nat (recordNumberColumn opts) < length (table ! i)
        \<and> recordNumbers (inputData s1 ! i)
            = js_match (match_rn (table ! i ! nat (recordNumberColumn opts)))"
    if "i < length table" "nat (skip opts) \<le> i"
      "wantsPrependedResults opts \<or> \<not> truthy (js_index (table ! i) (resultColumn opts))"
  proof -
    from that have nr: "\<not> rejected opts (inputData ?s ! i)"
      by (auto simp: rejected_def loadInputFile_nth)
    from extract_row_Inr(4) [OF other [OF that(1,2)] nr]
    obtain c where c: "js_index (table ! i) (recordNumberColumn opts) = Some c"
      and row: "recordNumbers (inputData s1 ! i) = js_match (match_rn c)"
      using \<open>i < length table\<close> by (auto simp: loadInputFile_nth)
    from c have "nat (recordNumberColumn opts) < length (table ! i)"
      and "c = table ! i ! nat (recordNumberColumn opts)"
      by (auto simp: js_index_def split: if_splits)
    with row show ?thesis by simp
  qed
qed

section \<open>The output\<close>

lemma assemble_row_fields:
  "cells (assemble_row m x) = cells x"
  "results (assemble_row m x)
     = (case recordNumbers x of None \<Rightarrow> results x | Some rns \<Rightarrow> Some (row_results m rns))"
  by (simp_all add: assemble_row_def split: option.splits)



text \<open>The rows the output functions get, for a table as the parser gives it.\<close>

lemma final_rows:
  assumes "augmentInputDataWithRecordNumbers opts (loadInputFile table) = Inr s1"
    and "findUosCode st s1 = (asked, Inr s2)"
    and "i < length table"
  shows "length (inputData (augmentInputDataWithResults s2)) = length table"
    and "cells (inputData (augmentInputDataWithResults s2) ! i) = table ! i"
    and "results (inputData (augmentInputDataWithResults s2) ! i)
          = (case recordNumbers (inputData s1 ! i) of
               None \<Rightarrow> None
             | Some rns \<Rightarrow> Some (row_results (mapping s2) rns))"
proof -
  note same = findUosCode_Inr(1) [OF assms(2)]
  note rows = extracted_rows [OF assms(1)]
  show "length (inputData (augmentInputDataWithResults s2)) = length table"
    by (simp add: length_augmentInputDataWithResults same rows(1))
  from assms(3) have i: "i < length (inputData s2)" by (simp add: same rows(1))
  show "cells (inputData (augmentInputDataWithResults s2) ! i) = table ! i"
    using assms(3) by (simp add: augmentInputDataWithResults_nth [OF i] assemble_row_fields same rows(2))
  show "results (inputData (augmentInputDataWithResults s2) ! i)
          = (case recordNumbers (inputData s1 ! i) of
               None \<Rightarrow> None
             | Some rns \<Rightarrow> Some (row_results (mapping s2) rns))"
    using assms(3)
    by (simp add: augmentInputDataWithResults_nth [OF i] assemble_row_fields same rows(3)
        split: option.splits)
qed

text \<open>
  C8. The two output functions write one row for every row of \<open>inputData\<close>. When the
  pipeline reaches the output, the rows written are as many as the rows read, and the row
  written at an index is the row read at this index: as it was read, or behind one new
  first cell, or with one cell assigned at \<open>resultColumn\<close>.
\<close>

theorem output_keeps_rows_and_order:
  assumes "run opts st table = (asked, Inr out)"
  shows "length out = length table
     \<and> (\<forall>i<length table.
           out ! i = map Some (table ! i)
         \<or> (\<exists>v. out ! i = Some v # map Some (table ! i))
         \<or> (\<exists>v. out ! i = js_assign (map Some (table ! i)) (resultColumn opts) v))
     \<and> length (outputInNewColumn opts s) = length (inputData s)
     \<and> length (outputInExistingColumn opts s) = length (inputData s)"
proof -
  from assms obtain s1 s2
    where s1: "augmentInputDataWithRecordNumbers opts (loadInputFile table) = Inr s1"
      and s2: "findUosCode st s1 = (asked, Inr s2)"
      and out: "out = (if wantsPrependedResults opts then outputInNewColumn
                       else outputInExistingColumn) opts (augmentInputDataWithResults s2)"
    by (rule run_Inr)
  let ?s3 = "augmentInputDataWithResults s2"
  have len3: "length (inputData ?s3) = length table"
    by (simp add: length_augmentInputDataWithResults findUosCode_Inr(1) [OF s2]
        extracted_rows(1) [OF s1])
  have len: "length out = length table"
    by (simp add: out length_outputInNewColumn length_outputInExistingColumn len3)
  have rows: "out ! i = map Some (table ! i)
         \<or> (\<exists>v. out ! i = Some v # map Some (table ! i))
         \<or> (\<exists>v. out ! i = js_assign (map Some (table ! i)) (resultColumn opts) v)"
    if "i < length table" for i
  proof -
    from that have i: "i < length (inputData ?s3)" by (simp add: len3)
    note c = final_rows(2) [OF s1 s2 that]
    show ?thesis
    proof (cases "wantsPrependedResults opts")
      case True
      then show ?thesis
        by (simp add: out outputInNewColumn_nth [OF i] c split: option.splits)
    next
      case False
      then show ?thesis
        by (auto simp: out outputInExistingColumn_nth [OF i] c split: option.splits)
    qed
  qed
  from len rows show ?thesis
    by (simp add: length_outputInNewColumn length_outputInExistingColumn)
qed

theorem output_keeps_rows_and_order_witness:
  "run \<lparr>skip = 1, column = 1, result_column = 2\<rparr> (\<lambda>asked q. Inr [''ABCD 1234''])
       [[''number'', ''code''], [''r1006349'', ''''], [''r1006370'', ''LAWS1000'']]
     = ([''1006349''],
        Inr [[Some '''', Some ''number'', Some ''code''],
             [Some ''r1006349'', Some ''ABCD1234''],
             [Some ''r1006370'', Some ''LAWS1000'']])
   \<and> length [[Some '''', Some ''number'', Some ''code''],
             [Some ''r1006349'', Some ''ABCD1234''],
             [Some ''r1006370'', Some ''LAWS1000'']]
     = length [[''number'', ''code''], [''r1006349'', ''''], [''r1006370'', ''LAWS1000'']]"
proof -
  have r: "run \<lparr>skip = 1, column = 1, result_column = 2\<rparr> (\<lambda>asked q. Inr [''ABCD 1234''])
       [[''number'', ''code''], [''r1006349'', ''''], [''r1006370'', ''LAWS1000'']]
     = ([''1006349''],
        Inr [[Some '''', Some ''number'', Some ''code''],
             [Some ''r1006349'', Some ''ABCD1234''],
             [Some ''r1006370'', Some ''LAWS1000'']])"
    by code_simp
  from output_keeps_rows_and_order [OF r] r show ?thesis
    by blast
qed

section \<open>The header rows when the results go into a new column\<close>

text \<open>
  C3. Claimed: when the results are inserted as a new column, every row written, the skipped
  header rows too, has one new first cell. The program writes the skipped rows as they were
  read, with no new cell, so that the header cells stand one column to the left of the
  cells they name: with one header row and one data row the output has a header of one cell
  above a data row of two.
\<close>

theorem header_row_gets_no_new_cell:
  "run \<lparr>skip = 1, column = 1, result_column = 0\<rparr> (\<lambda>asked q. Inr [])
       [[''number''], [''r1006349'']]
   = ([''1006349''], Inr [[Some ''number''], [Some ''r1006349'', Some ''r1006349'']])"
  by code_simp

section \<open>The loop over the distinct record numbers\<close>

lemma query_loop_asked_prefix:
  "\<exists>n\<le>length rns. fst (query_loop st asked m rns) = asked @ map (drop 1) (take n rns)"
proof (induction rns arbitrary: asked m)
  case Nil
  then show ?case by simp
next
  case (Cons rn rns)
  show ?case
  proof (cases "st asked (drop 1 rn)")
    case (Inl e)
    then have "fst (query_loop st asked m (rn # rns)) = asked @ map (drop 1) (take 1 (rn # rns))"
      by simp
    then show ?thesis by (metis One_nat_def Suc_leI length_Cons zero_less_Suc)
  next
    case (Inr fields)
    from Cons.IH [of "asked @ [drop 1 rn]" "m(rn \<mapsto> resolve rn fields)"]
    obtain n where n: "n \<le> length rns"
      "fst (query_loop st (asked @ [drop 1 rn]) (m(rn \<mapsto> resolve rn fields)) rns)
        = (asked @ [drop 1 rn]) @ map (drop 1) (take n rns)"
      by blast
    with Inr have "Suc n \<le> length (rn # rns)
      \<and> fst (query_loop st asked m (rn # rns)) = asked @ map (drop 1) (take (Suc n) (rn # rns))"
      by simp
    then show ?thesis by blast
  qed
qed

lemma query_loop_Inr_asked:
  "query_loop st asked m rns = (asked', Inr m') \<Longrightarrow> asked' = asked @ map (drop 1) rns"
proof (induction rns arbitrary: asked m)
  case Nil
  then show ?case by simp
next
  case (Cons rn rns)
  from Cons.prems obtain fields where f: "st asked (drop 1 rn) = Inr fields"
    and rest: "query_loop st (asked @ [drop 1 rn]) (m(rn \<mapsto> resolve rn fields)) rns = (asked', Inr m')"
    by (auto split: sum.splits)
  from Cons.IH [OF rest] show ?case by simp
qed

lemma query_loop_Inr_other:
  "query_loop st asked m rns = (asked', Inr m') \<Longrightarrow> k \<notin> set rns \<Longrightarrow> m' k = m k"
proof (induction rns arbitrary: asked m)
  case Nil
  then show ?case by simp
next
  case (Cons rn rns)
  from Cons.prems(1) obtain fields where f: "st asked (drop 1 rn) = Inr fields"
    and rest: "query_loop st (asked @ [drop 1 rn]) (m(rn \<mapsto> resolve rn fields)) rns = (asked', Inr m')"
    by (auto split: sum.splits)
  from Cons.prems(2) have "k \<notin> set rns" "k \<noteq> rn" by auto
  with Cons.IH [OF rest] show ?case by simp
qed

lemma query_loop_Inr_entry:
  "query_loop st asked m rns = (asked', Inr m') \<Longrightarrow> distinct rns \<Longrightarrow> j < length rns \<Longrightarrow>
     \<exists>fields. st (asked @ map (drop 1) (take j rns)) (drop 1 (rns ! j)) = Inr fields
        \<and> m' (rns ! j) = Some (resolve (rns ! j) fields)"
proof (induction rns arbitrary: asked m j)
  case Nil
  then show ?case by simp
next
  case (Cons rn rns)
  from Cons.prems(1) obtain fields where f: "st asked (drop 1 rn) = Inr fields"
    and rest: "query_loop st (asked @ [drop 1 rn]) (m(rn \<mapsto> resolve rn fields)) rns = (asked', Inr m')"
    by (auto split: sum.splits)
  show ?case
  proof (cases j)
    case 0
    from Cons.prems(2) have "rn \<notin> set rns" by simp
    from query_loop_Inr_other [OF rest this] have "m' rn = Some (resolve rn fields)" by simp
    with f 0 show ?thesis by simp
  next
    case (Suc i)
    with Cons.prems(2,3) have "distinct rns" "i < length rns" by simp_all
    from Cons.IH [OF rest this] Suc show ?thesis by simp
  qed
qed

text \<open>The loop stops at the first query the store answers with an error.\<close>

lemma query_loop_first_error:
  assumes "j < length rns"
    and "st (asked @ map (drop 1) (take j rns)) (drop 1 (rns ! j)) = Inl e"
    and "\<forall>k<j. \<exists>fields. st (asked @ map (drop 1) (take k rns)) (drop 1 (rns ! k)) = Inr fields"
  shows "query_loop st asked m rns = (asked @ map (drop 1) (take (Suc j) rns), Inl e)"
  using assms
proof (induction rns arbitrary: asked m j)
  case Nil
  then show ?case by simp
next
  case (Cons rn rns)
  show ?case
  proof (cases j)
    case 0
    with Cons.prems show ?thesis by simp
  next
    case (Suc i)
    with Cons.prems(3) have "\<exists>fields. st (asked @ map (drop 1) (take 0 (rn # rns))) (drop 1 ((rn # rns) ! 0)) = Inr fields"
      by blast
    then obtain fields where f: "st asked (drop 1 rn) = Inr fields" by auto
    have later: "\<forall>k<i. \<exists>fields. st ((asked @ [drop 1 rn]) @ map (drop 1) (take k rns)) (drop 1 (rns ! k)) = Inr fields"
    proof (intro allI impI)
      fix k assume "k < i"
      then have "Suc k < j" by (simp add: Suc)
      with Cons.prems(3)
      have "\<exists>fields. st (asked @ map (drop 1) (take (Suc k) (rn # rns))) (drop 1 ((rn # rns) ! Suc k)) = Inr fields"
        by blast
      then show "\<exists>fields. st ((asked @ [drop 1 rn]) @ map (drop 1) (take k rns)) (drop 1 (rns ! k)) = Inr fields"
        by simp
    qed
    from Cons.prems(1,2) Suc have "i < length rns"
      "st ((asked @ [drop 1 rn]) @ map (drop 1) (take i rns)) (drop 1 (rns ! i)) = Inl e"
      by simp_all
    from Cons.IH [OF this later, of "m(rn \<mapsto> resolve rn fields)"] f Suc
    show ?thesis by (simp add: fun_upd_def)
  qed
qed

section \<open>The queries to the store\<close>

lemma set_uniqSetOfRecordNumbers:
  "set (uniqSetOfRecordNumbers rows)
     = (\<Union>x\<in>set rows. case recordNumbers x of None \<Rightarrow> {} | Some rns \<Rightarrow> set rns)"
proof -
  have "set (concat (filter_identity (map recordNumbers rows)))
      = (\<Union>x\<in>set rows. case recordNumbers x of None \<Rightarrow> {} | Some rns \<Rightarrow> set rns)"
  proof (induction rows)
    case Nil
    then show ?case by simp
  next
    case (Cons x rows)
    then show ?case by (cases "recordNumbers x") simp_all
  qed
  then show ?thesis
    by (simp add: uniqSetOfRecordNumbers_def set_sortedUniq_sort)
qed

lemma distinct_uniqSetOfRecordNumbers: "distinct (uniqSetOfRecordNumbers rows)"
  by (simp add: uniqSetOfRecordNumbers_def distinct_sortedUniq_sort)

lemma rn_at_drop1_inj:
  assumes "rn_at a" "rn_at b" "drop 1 a = drop 1 b"
  shows "a = b"
proof -
  from assms(1) obtain as where a: "a = CHR ''r'' # as" by (cases a) (auto simp: rn_at_def)
  from assms(2) obtain bs where b: "b = CHR ''r'' # bs" by (cases b) (auto simp: rn_at_def)
  from assms(3) show ?thesis by (simp add: a b)
qed

text \<open>The record numbers of the rows after the first stage are matches of the pattern.\<close>

lemma extracted_record_numbers:
  assumes "augmentInputDataWithRecordNumbers opts (loadInputFile table) = Inr s1"
    and "i < length table" and "recordNumbers (inputData s1 ! i) = Some rns"
  shows "rns = rn_occurrences (table ! i ! nat (recordNumberColumn opts))"
proof -
  note ext = extracted_rows [OF assms(1)]
  from assms(2,3) ext(4) [of i] have sk: "nat (skip opts) \<le> i"
    by (cases "i < nat (skip opts)") simp_all
  have "wantsPrependedResults opts \<or> \<not> truthy (js_index (table ! i) (resultColumn opts))"
    using assms(2,3) sk ext(5) [of i] by auto
  from ext(6) [OF assms(2) sk this] assms(3)
  have "js_match (match_rn (table ! i ! nat (recordNumberColumn opts))) = Some rns" by simp
  then show ?thesis
    by (simp add: js_match_def match_rn_occurrences split: if_splits)
qed

lemma extracted_record_numbers_shape:
  assumes "augmentInputDataWithRecordNumbers opts (loadInputFile table) = Inr s1"
    and "rn \<in> set (uniqSetOfRecordNumbers (inputData s1))"
  shows "rn_at rn"
proof -
  from assms(2) obtain x rns where x: "x \<in> set (inputData s1)"
    and rns: "recordNumbers x = Some rns" "rn \<in> set rns"
    by (auto simp: set_uniqSetOfRecordNumbers split: option.splits)
  from x obtain i where i: "i < length (inputData s1)" "x = inputData s1 ! i"
    by (auto simp: in_set_conv_nth)
  with extracted_rows(1) [OF assms(1)] have "i < length table" by simp
  from extracted_record_numbers [OF assms(1) this] rns i
  have "rn \<in> set (rn_occurrences (table ! i ! nat (recordNumberColumn opts)))" by simp
  then show ?thesis by (simp add: rn_occurrences_shape)
qed

lemma count_list_distinct: "distinct xs \<Longrightarrow> x \<in> set xs \<Longrightarrow> count_list xs x = 1"
  by (induction xs) (auto simp: count_list_0_iff)

text \<open>
  C9. When the store answers a query with an error, the earlier queries having been
  answered, \<open>findUosCode\<close> ends with this very error and without a mapping, and so does the
  run, without output: the queries made are those up to the failing one, which is the last
  and is not repeated.
\<close>

theorem store_error_ends_the_run:
  assumes "augmentInputDataWithRecordNumbers opts (loadInputFile table) = Inr s1"
    and "j < length (uniqSetOfRecordNumbers (inputData s1))"
    and "st (map (drop 1) (take j (uniqSetOfRecordNumbers (inputData s1))))
            (drop 1 (uniqSetOfRecordNumbers (inputData s1) ! j)) = Inl e"
    and "\<forall>k<j. \<exists>fields. st (map (drop 1) (take k (uniqSetOfRecordNumbers (inputData s1))))
            (drop 1 (uniqSetOfRecordNumbers (inputData s1) ! k)) = Inr fields"
  shows "findUosCode st s1
           = (map (drop 1) (take (Suc j) (uniqSetOfRecordNumbers (inputData s1))), Inl e)
     \<and> run opts st table
           = (map (drop 1) (take (Suc j) (uniqSetOfRecordNumbers (inputData s1))), Inl e)
     \<and> distinct (map (drop 1) (take (Suc j) (uniqSetOfRecordNumbers (inputData s1))))"
proof -
  let ?rns = "uniqSetOfRecordNumbers (inputData s1)"
  from assms(2-4)
  have "query_loop st [] Map.empty ?rns = ([] @ map (drop 1) (take (Suc j) ?rns), Inl e)"
    by (intro query_loop_first_error) simp_all
  then have f: "findUosCode st s1 = (map (drop 1) (take (Suc j) ?rns), Inl e)"
    by (simp add: findUosCode_def)
  with assms(1) have r: "run opts st table = (map (drop 1) (take (Suc j) ?rns), Inl e)"
    by (simp add: run_def)
  have "inj_on (drop 1) (set ?rns)"
    by (rule inj_onI) (blast intro: rn_at_drop1_inj extracted_record_numbers_shape [OF assms(1)])
  then have "inj_on (drop 1) (set (take (Suc j) ?rns))"
    by (rule inj_on_subset) (rule set_take_subset)
  moreover have "distinct (take (Suc j) ?rns)"
    by (rule distinct_take) (rule distinct_uniqSetOfRecordNumbers)
  ultimately have "distinct (map (drop 1) (take (Suc j) ?rns))"
    by (simp add: distinct_map)
  with f r show ?thesis by simp
qed

theorem store_error_ends_the_run_witness:
  "run \<lparr>skip = 1, column = 1, result_column = 0\<rparr>
       (\<lambda>asked q. if q = ''1006370'' then Inl (StoreError ''connection lost'')
                   else Inr [''ABCD1234''])
       [[''number''], [''r1006370''], [''r1006349''], [''r1006380'']]
     = ([''1006349'', ''1006370''], Inl (StoreError ''connection lost''))"
proof -
  let ?opts = "\<lparr>skip = 1, column = 1, result_column = 0\<rparr>"
  let ?st = "\<lambda>asked q. if q = ''1006370'' then Inl (StoreError ''connection lost'')
                   else Inr [''ABCD1234'']"
  let ?table = "[[''number''], [''r1006370''], [''r1006349''], [''r1006380'']]"
  let ?s1 = "\<lparr>inputData =
      [\<lparr>cells = [''number''], recordNumbers = None, results = None\<rparr>,
       \<lparr>cells = [''r1006370''], recordNumbers = Some [''r1006370''], results = None\<rparr>,
       \<lparr>cells = [''r1006349''], recordNumbers = Some [''r1006349''], results = None\<rparr>,
       \<lparr>cells = [''r1006380''], recordNumbers = Some [''r1006380''], results = None\<rparr>]\<rparr>"
  have s1: "augmentInputDataWithRecordNumbers ?opts (loadInputFile ?table) = Inr ?s1"
    by code_simp
  have u: "uniqSetOfRecordNumbers (inputData ?s1) = [''r1006349'', ''r1006370'', ''r1006380'']"
    by code_simp
  have j: "1 < length (uniqSetOfRecordNumbers (inputData ?s1))"
    unfolding u by simp
  have fails: "?st (map (drop 1) (take 1 (uniqSetOfRecordNumbers (inputData ?s1))))
      (drop 1 (uniqSetOfRecordNumbers (inputData ?s1) ! 1)) = Inl (StoreError ''connection lost'')"
    unfolding u by simp
  have before: "\<forall>k<1. \<exists>fields. ?st (map (drop 1) (take k (uniqSetOfRecordNumbers (inputData ?s1))))
      (drop 1 (uniqSetOfRecordNumbers (inputData ?s1) ! k)) = Inr fields"
    unfolding u by simp
  from store_error_ends_the_run [OF s1 j fails before] show ?thesis
    unfolding u by simp
qed

section \<open>One query for every record number\<close>

lemma fst_findUosCode:
  "fst (findUosCode st s) = fst (query_loop st [] Map.empty (uniqSetOfRecordNumbers (inputData s)))"
  by (simp add: findUosCode_def split: prod.splits sum.splits)

lemma distinct_queries:
  assumes "augmentInputDataWithRecordNumbers opts (loadInputFile table) = Inr s1"
  shows "distinct (map (drop 1) (take n (uniqSetOfRecordNumbers (inputData s1))))"
proof -
  let ?rns = "uniqSetOfRecordNumbers (inputData s1)"
  have "inj_on (drop 1) (set ?rns)"
    by (rule inj_onI) (blast intro: rn_at_drop1_inj extracted_record_numbers_shape [OF assms])
  then have "inj_on (drop 1) (set (take n ?rns))"
    by (rule inj_on_subset) (rule set_take_subset)
  moreover have "distinct (take n ?rns)"
    by (rule distinct_take) (rule distinct_uniqSetOfRecordNumbers)
  ultimately show ?thesis
    by (simp add: distinct_map)
qed

lemma distinct_asked:
  assumes "augmentInputDataWithRecordNumbers opts (loadInputFile table) = Inr s1"
  shows "distinct (fst (findUosCode st s1))"
proof -
  from query_loop_asked_prefix [of "uniqSetOfRecordNumbers (inputData s1)" st "[]" Map.empty]
  obtain n where "fst (query_loop st [] Map.empty (uniqSetOfRecordNumbers (inputData s1)))
      = map (drop 1) (take n (uniqSetOfRecordNumbers (inputData s1)))"
    by auto
  with distinct_queries [OF assms, of n] show ?thesis
    by (simp add: fst_findUosCode)
qed

text \<open>
  C5. Whatever the store answers, no query is made twice. When the resolution pass
  completes, the store has been asked once for every record number that occurs in a row,
  however many rows or cells hold it, and for nothing else; the mapping holds for the
  record number the resolution of the fields this one query returned, and the results of
  every row are made of the values of its record numbers in this one mapping.
\<close>

theorem one_query_per_record_number:
  assumes "augmentInputDataWithRecordNumbers opts (loadInputFile table) = Inr s1"
    and "findUosCode st s1 = (asked, Inr s2)"
  shows "(\<forall>store'. distinct (fst (findUosCode store' s1)))
     \<and> distinct asked
     \<and> set asked = drop 1 ` (\<Union>x\<in>set (inputData s1).
                       case recordNumbers x of None \<Rightarrow> {} | Some rns \<Rightarrow> set rns)
     \<and> (\<forall>i<length table. \<forall>rns. recordNumbers (inputData s1 ! i) = Some rns \<longrightarrow>
           (\<forall>rn\<in>set rns.
               count_list asked (drop 1 rn) = 1
             \<and> (\<exists>before after fields.
                   asked = before @ drop 1 rn # after
                 \<and> st before (drop 1 rn) = Inr fields
                 \<and> mapping s2 rn = Some (resolve rn fields)))
         \<and> results (inputData (augmentInputDataWithResults s2) ! i)
             = Some (uniq (concat (map (\<lambda>rn. flatten_value (mapping s2 rn)) rns))))"
proof -
  let ?rns = "uniqSetOfRecordNumbers (inputData s1)"
  note loop = findUosCode_Inr(2) [OF assms(2)]
  have asked: "asked = map (drop 1) ?rns"
    using query_loop_Inr_asked [OF loop] by simp
  have inj: "inj_on (drop 1) (set ?rns)"
    by (rule inj_onI) (blast intro: rn_at_drop1_inj extracted_record_numbers_shape [OF assms(1)])
  have d: "distinct asked"
    using inj by (simp add: asked distinct_map distinct_uniqSetOfRecordNumbers)
  have s: "set asked = drop 1 ` (\<Union>x\<in>set (inputData s1).
                       case recordNumbers x of None \<Rightarrow> {} | Some rns \<Rightarrow> set rns)"
    by (simp add: asked set_uniqSetOfRecordNumbers)
  have entry: "count_list asked (drop 1 rn) = 1
      \<and> (\<exists>before after fields. asked = before @ drop 1 rn # after
            \<and> st before (drop 1 rn) = Inr fields
            \<and> mapping s2 rn = Some (resolve rn fields))"
    if mem: "rn \<in> set ?rns" for rn
  proof
    from mem have "drop 1 rn \<in> set asked" by (simp add: asked)
    with d show "count_list asked (drop 1 rn) = 1" by (rule count_list_distinct)
    from mem obtain j where j: "j < length ?rns" "?rns ! j = rn"
      by (auto simp: in_set_conv_nth)
    from query_loop_Inr_entry [OF loop distinct_uniqSetOfRecordNumbers j(1)]
    obtain fields where f: "st (map (drop 1) (take j ?rns)) (drop 1 (?rns ! j)) = Inr fields"
      "mapping s2 (?rns ! j) = Some (resolve (?rns ! j) fields)"
      by auto
    have "?rns = take j ?rns @ ?rns ! j # drop (Suc j) ?rns"
      by (rule id_take_nth_drop [OF j(1)])
    then have "map (drop 1) ?rns
        = map (drop 1) (take j ?rns) @ drop 1 (?rns ! j) # map (drop 1) (drop (Suc j) ?rns)"
      by (metis list.simps(9) map_append)
    with f have "\<exists>before after fields. asked = before @ drop 1 (?rns ! j) # after
            \<and> st before (drop 1 (?rns ! j)) = Inr fields
            \<and> mapping s2 (?rns ! j) = Some (resolve (?rns ! j) fields)"
      unfolding asked by blast
    then show "\<exists>before after fields. asked = before @ drop 1 rn # after
            \<and> st before (drop 1 rn) = Inr fields
            \<and> mapping s2 rn = Some (resolve rn fields)"
      unfolding j(2) .
  qed
  have row: "(\<forall>rn\<in>set rns.
               count_list asked (drop 1 rn) = 1
             \<and> (\<exists>before after fields.
                   asked = before @ drop 1 rn # after
                 \<and> st before (drop 1 rn) = Inr fields
                 \<and> mapping s2 rn = Some (resolve rn fields)))
         \<and> results (inputData (augmentInputDataWithResults s2) ! i)
             = Some (uniq (concat (map (\<lambda>rn. flatten_value (mapping s2 rn)) rns)))"
    if i: "i < length table" and rns: "recordNumbers (inputData s1 ! i) = Some rns" for i rns
  proof
    from i have "inputData s1 ! i \<in> set (inputData s1)"
      by (simp add: extracted_rows(1) [OF assms(1)])
    with rns have "set rns \<subseteq> set ?rns"
      by (force simp: set_uniqSetOfRecordNumbers)
    with entry show "\<forall>rn\<in>set rns.
               count_list asked (drop 1 rn) = 1
             \<and> (\<exists>before after fields.
                   asked = before @ drop 1 rn # after
                 \<and> st before (drop 1 rn) = Inr fields
                 \<and> mapping s2 rn = Some (resolve rn fields))"
      by blast
    from final_rows(3) [OF assms i] rns
    show "results (inputData (augmentInputDataWithResults s2) ! i)
             = Some (uniq (concat (map (\<lambda>rn. flatten_value (mapping s2 rn)) rns)))"
      by (simp add: row_results_def)
  qed
  from d s row distinct_asked [OF assms(1)] show ?thesis by blast
qed

theorem one_query_per_record_number_witness:
  "run \<lparr>skip = 1, column = 1, result_column = 0\<rparr>
       (\<lambda>asked q. if q \<in> set asked then Inr [''WXYZ5678''] else Inr [''ABCD1234''])
       [[''number''], [''r1006349; r1006349''], [''r1006349'']]
     = ([''1006349''],
        Inr [[Some ''number''],
             [Some ''ABCD1234'', Some ''r1006349; r1006349''],
             [Some ''ABCD1234'', Some ''r1006349'']])
   \<and> count_list [''1006349''] ''1006349'' = 1"
proof -
  let ?opts = "\<lparr>skip = 1, column = 1, result_column = 0\<rparr>"
  let ?st = "\<lambda>asked q. if q \<in> set asked then Inr [''WXYZ5678''] else Inr [''ABCD1234'']"
  let ?table = "[[''number''], [''r1006349; r1006349''], [''r1006349'']]"
  let ?s1 = "\<lparr>inputData =
      [\<lparr>cells = [''number''], recordNumbers = None, results = None\<rparr>,
       \<lparr>cells = [''r1006349; r1006349''], recordNumbers = Some [''r1006349'', ''r1006349''],
        results = None\<rparr>,
       \<lparr>cells = [''r1006349''], recordNumbers = Some [''r1006349''], results = None\<rparr>]\<rparr>"
  have r: "run ?opts ?st ?table
     = ([''1006349''],
        Inr [[Some ''number''],
             [Some ''ABCD1234'', Some ''r1006349; r1006349''],
             [Some ''ABCD1234'', Some ''r1006349'']])"
    by code_simp
  have s1: "augmentInputDataWithRecordNumbers ?opts (loadInputFile ?table) = Inr ?s1"
    by code_simp
  have "case findUosCode ?st ?s1 of
          (a, Inl e) \<Rightarrow> False
        | (a, Inr s) \<Rightarrow> a = [''1006349'']"
    by code_simp
  then obtain s2 where s2: "findUosCode ?st ?s1 = ([''1006349''], Inr s2)"
    by (auto split: prod.splits sum.splits)
  have i: "1 < length ?table" by simp
  have rns: "recordNumbers (inputData ?s1 ! 1) = Some [''r1006349'', ''r1006349'']" by simp
  from one_query_per_record_number [OF s1 s2] i rns
  have "\<forall>rn\<in>set [''r1006349'', ''r1006349'']. count_list [''1006349''] (drop 1 rn) = 1"
    by blast
  then have "count_list [''1006349''] ''1006349'' = 1" by simp
  with r show ?thesis by simp
qed

section \<open>The results of a row, from the mapping\<close>

lemma uniq_into_map_inj:
  "inj f \<Longrightarrow> uniq_into (map f acc) (map f xs) = map f (uniq_into acc xs)"
proof (induction xs arbitrary: acc)
  case Nil
  then show ?case by simp
next
  case (Cons x xs)
  from Cons.prems have mem: "f x \<in> f ` set acc \<longleftrightarrow> x \<in> set acc"
    by (simp add: inj_image_mem_iff)
  from Cons.IH [OF Cons.prems, of acc] Cons.IH [OF Cons.prems, of "acc @ [x]"] mem
  show ?case by simp
qed

lemma uniq_map_inj: "inj f \<Longrightarrow> uniq (map f xs) = map f (uniq xs)"
  using uniq_into_map_inj [of f "[]" xs] by (simp add: uniq_def)

lemma flatten_value_Some: "flatten_value (Some r) = map Some (resolution_values r)"
  by (cases r) (simp_all add: flatten_value_def)

lemma flatten_values_of_entries:
  assumes "map m rns = map Some rs"
  shows "concat (map (\<lambda>x. flatten_value (m x)) rns) = map Some (concat (map resolution_values rs))"
proof -
  have "map (\<lambda>x. flatten_value (m x)) rns = map flatten_value (map m rns)"
    by simp
  also have "\<dots> = map (\<lambda>r. map Some (resolution_values r)) rs"
    by (simp add: assms flatten_value_Some)
  finally show ?thesis
    by (simp add: map_concat comp_def)
qed

lemma row_results_of_entries:
  assumes "map m rns = map Some rs"
  shows "row_results m rns = map Some (first_occurrences (concat (map resolution_values rs)))"
proof -
  let ?flat = "concat (map resolution_values rs)"
  have "row_results m rns = uniq (map Some ?flat)"
    by (simp add: row_results_def flatten_values_of_entries [OF assms])
  also have "\<dots> = map Some (uniq ?flat)"
    by (rule uniq_map_inj) simp
  finally show ?thesis
    by (simp add: uniq_first_occurrences)
qed

text \<open>After \<open>findUosCode\<close> the mapping has an entry for every record number of every row.\<close>

lemma mapping_has_entry:
  assumes "findUosCode st s0 = (asked, Inr s)"
    and "rn \<in> set (uniqSetOfRecordNumbers (inputData s0))"
  shows "\<exists>fields. mapping s rn = Some (resolve rn fields)"
proof -
  let ?rns = "uniqSetOfRecordNumbers (inputData s0)"
  from assms(2) obtain j where j: "j < length ?rns" "?rns ! j = rn"
    by (auto simp: in_set_conv_nth)
  from query_loop_Inr_entry [OF findUosCode_Inr(2) [OF assms(1)] distinct_uniqSetOfRecordNumbers j(1)]
  show ?thesis unfolding j(2) by blast
qed

lemma mapping_has_entries:
  assumes "findUosCode st s0 = (asked, Inr s)"
    and "i < length (inputData s)" and "recordNumbers (inputData s ! i) = Some rns"
  shows "\<exists>rs. map (mapping s) rns = map Some rs"
proof -
  note same = findUosCode_Inr(1) [OF assms(1)]
  from assms(2) have "inputData s0 ! i \<in> set (inputData s0)" by (simp add: same)
  with assms(3) have sub: "set rns \<subseteq> set (uniqSetOfRecordNumbers (inputData s0))"
    by (force simp: set_uniqSetOfRecordNumbers same)
  have "\<forall>rn\<in>set rns. \<exists>r. mapping s rn = Some r"
    using mapping_has_entry [OF assms(1)] sub by blast
  then have "map (mapping s) rns = map Some (map (\<lambda>rn. the (mapping s rn)) rns)"
    by (induction rns) auto
  then show ?thesis by blast
qed

text \<open>
  C6. For a row with record numbers, the results are made of the resolutions of its record
  numbers, in the order of the record numbers: an array of codes gives its codes, a
  fallback text gives the one text; of this list the elements at the positions of their
  first occurrence are kept, in the order of the list, so that no value occurs twice and
  none is lost. After \<open>findUosCode\<close> every record number of every row has its resolution
  in the mapping.
\<close>

theorem results_are_first_occurrences:
  "(i < length (inputData s) \<and> recordNumbers (inputData s ! i) = Some rns
      \<and> map (mapping s) rns = map Some rs
    \<longrightarrow> results (inputData (augmentInputDataWithResults s) ! i)
          = Some (map Some (first_occurrences (concat (map resolution_values rs))))
      \<and> distinct (first_occurrences (concat (map resolution_values rs)))
      \<and> set (first_occurrences (concat (map resolution_values rs)))
          = set (concat (map resolution_values rs)))
   \<and> (findUosCode st s0 = (asked, Inr s) \<and> i < length (inputData s)
      \<and> recordNumbers (inputData s ! i) = Some rns
    \<longrightarrow> (\<exists>rs. map (mapping s) rns = map Some rs))"
proof (intro conjI impI)
  let ?flat = "concat (map resolution_values rs)"
  assume a: "i < length (inputData s) \<and> recordNumbers (inputData s ! i) = Some rns
      \<and> map (mapping s) rns = map Some rs"
  then have "results (inputData (augmentInputDataWithResults s) ! i)
      = Some (row_results (mapping s) rns)"
    by (simp add: augmentInputDataWithResults_nth assemble_row_def)
  with a show "results (inputData (augmentInputDataWithResults s) ! i)
      = Some (map Some (first_occurrences ?flat))"
    by (simp add: row_results_of_entries)
  show "distinct (first_occurrences ?flat)"
    using distinct_uniq [of ?flat] by (simp add: uniq_first_occurrences)
  show "set (first_occurrences ?flat) = set ?flat"
    using set_uniq [of ?flat] by (simp add: uniq_first_occurrences)
next
  assume "findUosCode st s0 = (asked, Inr s) \<and> i < length (inputData s)
      \<and> recordNumbers (inputData s ! i) = Some rns"
  then show "\<exists>rs. map (mapping s) rns = map Some rs"
    using mapping_has_entries [of st s0 asked s i rns] by blast
qed

theorem results_are_first_occurrences_witness:
  "results (inputData (augmentInputDataWithResults
      \<lparr>inputData = [\<lparr>cells = [''r1006370 r1006380 r1006349 r1006380''],
                     recordNumbers = Some [''r1006370'', ''r1006380'', ''r1006349'', ''r1006380''],
                     results = None\<rparr>],
       mapping = [''r1006349'' \<mapsto> Codes [''ABCD1234'', ''WXYZ5678''],
                  ''r1006370'' \<mapsto> Codes [''WXYZ5678''],
                  ''r1006380'' \<mapsto> Text ''Law reading list'']\<rparr>) ! 0)
     = Some [Some ''WXYZ5678'', Some ''Law reading list'', Some ''ABCD1234'']
   \<and> sortedUniq (sort [''WXYZ5678'', ''Law reading list'', ''ABCD1234'', ''WXYZ5678'',
         ''Law reading list''])
     = [''ABCD1234'', ''Law reading list'', ''WXYZ5678'']
   \<and> (\<exists>s rs. findUosCode (\<lambda>asked q. Inr [])
          \<lparr>inputData = [\<lparr>cells = [''r1006349''], recordNumbers = Some [''r1006349''],
                         results = None\<rparr>]\<rparr> = ([''1006349''], Inr s)
        \<and> map (mapping s) [''r1006349''] = map Some rs)"
proof -
  let ?m = "[''r1006349'' \<mapsto> Codes [''ABCD1234'', ''WXYZ5678''],
             ''r1006370'' \<mapsto> Codes [''WXYZ5678''],
             ''r1006380'' \<mapsto> Text ''Law reading list'']"
  let ?rns = "[''r1006370'', ''r1006380'', ''r1006349'', ''r1006380'']"
  let ?rs = "[Codes [''WXYZ5678''], Text ''Law reading list'',
              Codes [''ABCD1234'', ''WXYZ5678''], Text ''Law reading list'']"
  let ?s = "\<lparr>inputData = [\<lparr>cells = [''r1006370 r1006380 r1006349 r1006380''],
                     recordNumbers = Some ?rns, results = None\<rparr>],
       mapping = ?m\<rparr>"
  have h: "0 < length (inputData ?s) \<and> recordNumbers (inputData ?s ! 0) = Some ?rns
      \<and> map (mapping ?s) ?rns = map Some ?rs"
    by simp
  have first: "first_occurrences (concat (map resolution_values ?rs))
      = [''WXYZ5678'', ''Law reading list'', ''ABCD1234'']"
    by code_simp
  have sorted: "sortedUniq (sort [''WXYZ5678'', ''Law reading list'', ''ABCD1234'', ''WXYZ5678'',
         ''Law reading list''])
     = [''ABCD1234'', ''Law reading list'', ''WXYZ5678'']"
    by code_simp
  from results_are_first_occurrences [of 0 ?s ?rns ?rs] h
  have "results (inputData (augmentInputDataWithResults ?s) ! 0)
      = Some (map Some (first_occurrences (concat (map resolution_values ?rs))))"
    by blast
  then have r: "results (inputData (augmentInputDataWithResults ?s) ! 0)
      = Some [Some ''WXYZ5678'', Some ''Law reading list'', Some ''ABCD1234'']"
    unfolding first by simp
  let ?st = "\<lambda>asked q. Inr []"
  let ?s0 = "\<lparr>inputData = [\<lparr>cells = [''r1006349''], recordNumbers = Some [''r1006349''],
                         results = None\<rparr>]\<rparr>"
  have "case findUosCode ?st ?s0 of
          (a, Inl e) \<Rightarrow> False
        | (a, Inr s) \<Rightarrow> a = [''1006349''] \<and> length (inputData s) = 1
            \<and> recordNumbers (inputData s ! 0) = Some [''r1006349'']"
    by code_simp
  then obtain s2 where s2: "findUosCode ?st ?s0 = ([''1006349''], Inr s2)"
    and len: "length (inputData s2) = 1"
    and rn: "recordNumbers (inputData s2 ! 0) = Some [''r1006349'']"
    by (auto split: prod.splits sum.splits)
  from len rn have row: "0 < length (inputData s2)
      \<and> recordNumbers (inputData s2 ! 0) = Some [''r1006349'']"
    by simp
  from results_are_first_occurrences [of 0 s2 "[''r1006349'']" _ ?st ?s0 "[''1006349'']"] s2 row
  have "\<exists>rs. map (mapping s2) [''r1006349''] = map Some rs"
    by blast
  with s2 have e: "\<exists>s rs. findUosCode ?st ?s0 = ([''1006349''], Inr s)
        \<and> map (mapping s) [''r1006349''] = map Some rs"
    by blast
  from r sorted e show ?thesis by blast
qed

section \<open>The output into an existing column\<close>




end
